theory Spec2Isabelle
  imports Complex_Main "HOL-Library.Multiset" "HOL-Library.Product_Lexorder"
begin

section \<open>Data model\<close>

text \<open>
  The battle-log records as the two aggregators read them
  (\<^verbatim>\<open>PlayerUsageStats.tsx\<close> and \<^verbatim>\<open>PlayerMatchupStats\<close> in
  \<^verbatim>\<open>BattleLogAnalytics.tsx\<close>). A field that the code tests for presence is an
  \<open>option\<close>: \<open>None\<close> is JavaScript's \<^verbatim>\<open>undefined\<close>. Counters are JavaScript numbers that
  only ever hold integers; rates are quotients of two such counters and are modelled as exact
  rationals.
\<close>

datatype error = TypeError

record IconUrls =
  medium :: string
  evolutionMedium :: "string option"
  heroMedium :: "string option"

record Card =
  name :: string
  card_id :: int
  iconUrls :: IconUrls
  evolutionLevel :: "int option"

record BattleSide =
  tag :: string
  cards :: "Card list option"
  supportCards :: "Card list option"
  crowns :: "int option"
  startingTrophies :: "int option"

record Battle =
  battleType :: string
  team :: "BattleSide list"
  opponent :: "BattleSide list"

section \<open>JavaScript library operations\<close>

text \<open>
  A plain object used as a dictionary, and a \<^verbatim>\<open>Map\<close>, are association lists in insertion
  order: writing an existing key replaces the value in place, writing a new key appends.
  Keys are assumed not to name inherited members of \<^verbatim>\<open>Object.prototype\<close>.
\<close>

type_synonym 'v obj = "(string \<times> 'v) list"

definition objGet :: "'v obj \<Rightarrow> string \<Rightarrow> 'v option" where
  "objGet ob k = map_of ob k"

fun objSet :: "'v obj \<Rightarrow> string \<Rightarrow> 'v \<Rightarrow> 'v obj" where
  "objSet [] k v = [(k, v)]"
| "objSet ((k', v') # rest) k v =
     (if k' = k then (k, v) # rest else (k', v') # objSet rest k v)"

text \<open>
  \<^verbatim>\<open>Object.values\<close> / \<^verbatim>\<open>Object.entries\<close> enumerate array-index keys (canonical decimal
  numerals below \<open>2^32 - 1\<close>) first, in ascending numeric order, and every other string key
  afterwards in insertion order.
\<close>

definition isDigit :: "char \<Rightarrow> bool" where
  "isDigit c \<longleftrightarrow> 48 \<le> (of_char c :: nat) \<and> (of_char c :: nat) \<le> 57"

definition digitsValue :: "string \<Rightarrow> int" where
  "digitsValue s = foldl (\<lambda>n c. 10 * n + (of_char c - 48)) 0 s"

definition isArrayIndex :: "string \<Rightarrow> bool" where
  "isArrayIndex s \<longleftrightarrow>
     s \<noteq> [] \<and> list_all isDigit s \<and> (s = ''0'' \<or> hd s \<noteq> CHR ''0'') \<and>
     digitsValue s < 2 ^ 32 - 1"

definition objectEntries :: "'v obj \<Rightarrow> (string \<times> 'v) list" where
  "objectEntries ob =
     sort_key (\<lambda>kv. digitsValue (fst kv)) (filter (\<lambda>kv. isArrayIndex (fst kv)) ob) @
     filter (\<lambda>kv. \<not> isArrayIndex (fst kv)) ob"

definition objectValues :: "'v obj \<Rightarrow> 'v list" where
  "objectValues ob = map snd (objectEntries ob)"

text \<open>
  \<^verbatim>\<open>Array.prototype.sort(cmp)\<close> is a stable sort; for a consistent comparator its result is
  the one a stable insertion sort produces. \<open>cmp a b \<le> 0\<close> reads "a does not come after b".
\<close>

fun insortBy :: "('a \<Rightarrow> 'a \<Rightarrow> 'r::{zero,ord}) \<Rightarrow> 'a \<Rightarrow> 'a list \<Rightarrow> 'a list" where
  "insortBy cmp x [] = [x]"
| "insortBy cmp x (y # ys) = (if cmp x y \<le> 0 then x # y # ys else y # insortBy cmp x ys)"

definition sortBy :: "('a \<Rightarrow> 'a \<Rightarrow> 'r::{zero,ord}) \<Rightarrow> 'a list \<Rightarrow> 'a list" where
  "sortBy cmp xs = foldr (insortBy cmp) xs []"

text \<open>
  \<^verbatim>\<open>sort()\<close> without a comparator orders strings by their code units.
\<close>

fun codeUnitCompare :: "string \<Rightarrow> string \<Rightarrow> int" where
  "codeUnitCompare [] [] = 0"
| "codeUnitCompare [] (y # ys) = - 1"
| "codeUnitCompare (x # xs) [] = 1"
| "codeUnitCompare (x # xs) (y # ys) =
     (if (of_char x :: nat) < of_char y then - 1
      else if (of_char y :: nat) < of_char x then 1
      else codeUnitCompare xs ys)"

fun join :: "string \<Rightarrow> string list \<Rightarrow> string" where
  "join sep [] = []"
| "join sep [x] = x"
| "join sep (x # y # ys) = x @ sep @ join sep (y # ys)"

fun startsWith :: "string \<Rightarrow> string \<Rightarrow> bool" where
  "startsWith s [] = True"
| "startsWith [] (p # ps) = False"
| "startsWith (c # cs) (p # ps) = (c = p \<and> startsWith cs ps)"

fun includesStr :: "string \<Rightarrow> string \<Rightarrow> bool" where
  "includesStr [] p = (p = [])"
| "includesStr (c # cs) p = (startsWith (c # cs) p \<or> includesStr cs p)"

text \<open>
  \<^verbatim>\<open>forEach\<close> with a callback that may throw: the first exception ends the loop and
  propagates.
\<close>

fun forEachE :: "('s \<Rightarrow> 'a \<Rightarrow> error + 's) \<Rightarrow> 's \<Rightarrow> 'a list \<Rightarrow> error + 's" where
  "forEachE f s [] = Inr s"
| "forEachE f s (x # xs) = (case f s x of Inl e \<Rightarrow> Inl e | Inr s' \<Rightarrow> forEachE f s' xs)"

section \<open>Resolution of the self side\<close>

text \<open>
  \<^verbatim>\<open>battle.team.find(t => t.tag === playerTag) || battle.team[0]\<close>; \<open>None\<close> when the team
  array is empty.
\<close>

definition playerTeamOf :: "string \<Rightarrow> Battle \<Rightarrow> BattleSide option" where
  "playerTeamOf playerTag battle =
     (case List.find (\<lambda>t. tag t = playerTag) (team battle) of
        Some t \<Rightarrow> Some t
      | None \<Rightarrow> (case team battle of [] \<Rightarrow> None | t # _ \<Rightarrow> Some t))"

definition orZero :: "int option \<Rightarrow> int" where
  "orZero v = (case v of None \<Rightarrow> 0 | Some n \<Rightarrow> n)"

section \<open>Deck canonicalization (PlayerUsageStats.tsx, lines 88--107)\<close>

text \<open>
  \<open>lc\<close> stands for \<^verbatim>\<open>String.prototype.localeCompare\<close>, which the runtime supplies.
\<close>

definition uniqueCardsMap :: "Card list \<Rightarrow> Card obj" where
  "uniqueCardsMap cs = foldl (\<lambda>m c. objSet m (name c) c) [] cs"

definition sortedCards :: "(string \<Rightarrow> string \<Rightarrow> int) \<Rightarrow> Card list \<Rightarrow> Card list" where
  "sortedCards lc cs =
     (let deck = sortBy (\<lambda>a b. lc (name a) (name b)) (map snd (uniqueCardsMap cs))
      in if length deck > 8 then take 8 deck else deck)"

definition deckKey :: "Card list \<Rightarrow> string" where
  "deckKey deck = join '','' (map name deck)"

section \<open>Variants (PlayerUsageStats.tsx, lines 109--139)\<close>

definition isEvo :: "Card \<Rightarrow> bool" where
  "isEvo c =
     (let level = orZero (evolutionLevel c)
      in level = 1 \<or> (level = 0 \<and> includesStr (medium (iconUrls c)) ''evo''))"

definition isHero :: "Card \<Rightarrow> bool" where
  "isHero c =
     (let level = orZero (evolutionLevel c)
      in level = 2 \<or>
         (level = 0 \<and> \<not> includesStr (medium (iconUrls c)) ''evo'' \<and>
          includesStr (medium (iconUrls c)) ''hero''))"

definition truthyStr :: "string option \<Rightarrow> bool" where
  "truthyStr s = (case s of None \<Rightarrow> False | Some t \<Rightarrow> t \<noteq> [])"

definition variantKeyParts :: "Card list \<Rightarrow> string list" where
  "variantKeyParts deck =
     concat (map (\<lambda>c. (if isEvo c then [name c @ '':EVO''] else []) @
                       (if isHero c then [name c @ '':HERO''] else [])) deck)"

definition processedCard :: "Card \<Rightarrow> Card" where
  "processedCard c =
     (let iconUrl = medium (iconUrls c);
          iconUrl = (if isEvo c \<and> truthyStr (evolutionMedium (iconUrls c))
                     then the (evolutionMedium (iconUrls c)) else iconUrl);
          iconUrl = (if isHero c \<and> truthyStr (heroMedium (iconUrls c))
                     then the (heroMedium (iconUrls c)) else iconUrl)
      in c\<lparr>iconUrls := (iconUrls c)\<lparr>medium := iconUrl\<rparr>\<rparr>)"

definition variantKey :: "Card list \<Rightarrow> string" where
  "variantKey deck =
     (let k = join ''|'' (sortBy codeUnitCompare (variantKeyParts deck))
      in if k = [] then ''BASE'' else k)"

section \<open>Card and deck aggregation (PlayerUsageStats.tsx, lines 47--152)\<close>

record CardCount =
  cc_count :: int
  cc_wins :: int
  cc_card :: Card

record VariantCount =
  vc_count :: int
  vc_wins :: int
  vc_cards :: "Card list"

record DeckCount =
  dc_count :: int
  dc_wins :: int
  dc_variants :: "VariantCount obj"

record UsageTables =
  cardCounts :: "CardCount obj"
  deckCounts :: "DeckCount obj"

definition bumpCard :: "bool \<Rightarrow> CardCount obj \<Rightarrow> Card \<Rightarrow> CardCount obj" where
  "bumpCard isWin cc c =
     (let e = (case objGet cc (name c) of
                 None \<Rightarrow> \<lparr>cc_count = 0, cc_wins = 0, cc_card = c\<rparr>
               | Some e \<Rightarrow> e)
      in objSet cc (name c)
           (e\<lparr>cc_count := cc_count e + 1,
              cc_wins := (if isWin then cc_wins e + 1 else cc_wins e)\<rparr>))"

definition bumpVariant ::
  "bool \<Rightarrow> VariantCount obj \<Rightarrow> string \<Rightarrow> Card list \<Rightarrow> VariantCount obj" where
  "bumpVariant isWin vs vKey processed =
     (let e = (case objGet vs vKey of
                 None \<Rightarrow> \<lparr>vc_count = 0, vc_wins = 0, vc_cards = processed\<rparr>
               | Some e \<Rightarrow> e)
      in objSet vs vKey
           (e\<lparr>vc_count := vc_count e + 1,
              vc_wins := (if isWin then vc_wins e + 1 else vc_wins e)\<rparr>))"

definition bumpDeck ::
  "bool \<Rightarrow> DeckCount obj \<Rightarrow> string \<Rightarrow> string \<Rightarrow> Card list \<Rightarrow> DeckCount obj" where
  "bumpDeck isWin dc dKey vKey processed =
     (let e = (case objGet dc dKey of
                 None \<Rightarrow> \<lparr>dc_count = 0, dc_wins = 0, dc_variants = []\<rparr>
               | Some e \<Rightarrow> e)
      in objSet dc dKey
           (e\<lparr>dc_count := dc_count e + 1,
              dc_wins := (if isWin then dc_wins e + 1 else dc_wins e),
              dc_variants := bumpVariant isWin (dc_variants e) vKey processed\<rparr>))"

text \<open>
  The body of \<^verbatim>\<open>validBattles.forEach\<close>. The crowns of the resolved self side and of
  \<^verbatim>\<open>battle.opponent[0]\<close> are read before the guard
  \<^verbatim>\<open>if (!playerTeam || !playerTeam.cards) return\<close>, so an empty team array or an empty
  opponent array raises a TypeError.
\<close>

definition countBattle ::
  "(string \<Rightarrow> string \<Rightarrow> int) \<Rightarrow> string \<Rightarrow> UsageTables \<Rightarrow> Battle \<Rightarrow> error + UsageTables" where
  "countBattle lc playerTag st battle =
     (case playerTeamOf playerTag battle of
        None \<Rightarrow> Inl TypeError
      | Some playerTeam \<Rightarrow>
          (case opponent battle of
             [] \<Rightarrow> Inl TypeError
           | opp # _ \<Rightarrow>
               (let playerCrowns = orZero (crowns playerTeam);
                    opponentCrowns = orZero (crowns opp);
                    isWin = (playerCrowns > opponentCrowns)
                in case cards playerTeam of
                     None \<Rightarrow> Inr st
                   | Some cs \<Rightarrow>
                       (let cc = foldl (bumpCard isWin) (cardCounts st) cs;
                            deck = sortedCards lc cs
                        in if deck = [] then Inr (st\<lparr>cardCounts := cc\<rparr>)
                           else Inr \<lparr>cardCounts = cc,
                                     deckCounts =
                                       bumpDeck isWin (deckCounts st) (deckKey deck)
                                         (variantKey deck) (map processedCard deck)\<rparr>))))"

definition validBattles :: "Battle list \<Rightarrow> Battle list" where
  "validBattles battles =
     filter (\<lambda>b. battleType b = ''PvP'' \<or> battleType b = ''pathOfLegend'') battles"

definition countBattles ::
  "(string \<Rightarrow> string \<Rightarrow> int) \<Rightarrow> string \<Rightarrow> Battle list \<Rightarrow> error + UsageTables" where
  "countBattles lc playerTag battles =
     forEachE (countBattle lc playerTag) \<lparr>cardCounts = [], deckCounts = []\<rparr>
       (validBattles battles)"

section \<open>Selections (PlayerUsageStats.tsx, lines 154--238)\<close>

definition winRate :: "int \<Rightarrow> int \<Rightarrow> rat" where
  "winRate w n = of_int w / of_int n"

text \<open>Highest win rate among the cards with at least 5 battles; the accumulator is
  \<open>(bestCard, bestCardWinRate, bestCardCount)\<close>.\<close>

definition bestCardStep :: "Card option \<times> rat \<times> int \<Rightarrow> CardCount \<Rightarrow> Card option \<times> rat \<times> int" where
  "bestCardStep acc item =
     (if cc_count item \<ge> 5 then
        (if winRate (cc_wins item) (cc_count item) > fst (snd acc)
         then (Some (cc_card item), winRate (cc_wins item) (cc_count item), cc_count item)
         else acc)
      else acc)"

text \<open>Most used card; the accumulator is \<open>(mostUsedCard, maxCardCount)\<close>.\<close>

definition mostUsedStep :: "Card option \<times> int \<Rightarrow> CardCount \<Rightarrow> Card option \<times> int" where
  "mostUsedStep acc item =
     (if cc_count item > snd acc then (Some (cc_card item), cc_count item) else acc)"

text \<open>The fallback loop; the accumulator is
  \<open>(maxCount, bestCard, bestCardWinRate, bestCardCount)\<close>.\<close>

definition fallbackStep ::
  "int \<times> Card option \<times> rat \<times> int \<Rightarrow> CardCount \<Rightarrow> int \<times> Card option \<times> rat \<times> int" where
  "fallbackStep acc item =
     (if cc_count item > fst acc
      then (cc_count item, Some (cc_card item), winRate (cc_wins item) (cc_count item),
            cc_count item)
      else acc)"

definition selectBestCard :: "CardCount list \<Rightarrow> Card option \<times> rat \<times> int" where
  "selectBestCard items =
     (let acc = foldl bestCardStep (None, - 1, 0) items
      in if fst acc = None then snd (foldl fallbackStep (0, acc) items) else acc)"

definition selectMostUsedCard :: "CardCount list \<Rightarrow> Card option \<times> int" where
  "selectMostUsedCard items = foldl mostUsedStep (None, 0) items"

text \<open>Dominant variant of one deck; the accumulator is
  \<open>(bestVariant, maxVariantCount, maxVariantWins)\<close>.\<close>

definition variantStep ::
  "Card list option \<times> int \<times> int \<Rightarrow> VariantCount \<Rightarrow> Card list option \<times> int \<times> int" where
  "variantStep acc v =
     (if vc_count v > fst (snd acc) \<or> (vc_count v = fst (snd acc) \<and> vc_wins v > snd (snd acc))
      then (Some (vc_cards v), vc_count v, vc_wins v)
      else acc)"

definition bestVariant :: "VariantCount obj \<Rightarrow> Card list option" where
  "bestVariant variants = fst (foldl variantStep (None, - 1, - 1) (objectValues variants))"

text \<open>Most used deck; the accumulator is
  \<open>(mostUsedDeck, maxDeckCount, mostUsedDeckWins)\<close>.\<close>

definition deckStep ::
  "Card list option \<times> int \<times> int \<Rightarrow> DeckCount \<Rightarrow> Card list option \<times> int \<times> int" where
  "deckStep acc item =
     (if dc_count item > fst (snd acc) \<or>
         (dc_count item = fst (snd acc) \<and> dc_wins item > snd (snd acc))
      then (bestVariant (dc_variants item), dc_count item, dc_wins item)
      else acc)"

definition selectMostUsedDeck :: "DeckCount obj \<Rightarrow> Card list option \<times> int \<times> int" where
  "selectMostUsedDeck dc = foldl deckStep (None, 0, 0) (objectValues dc)"

record CardDatum =
  cd_name :: "string option"
  elixir :: "rat option"

definition elixirMap :: "CardDatum list \<Rightarrow> rat obj" where
  "elixirMap cardData =
     foldl (\<lambda>m c. if truthyStr (cd_name c) \<and> elixir c \<noteq> None
                   then objSet m (the (cd_name c)) (the (elixir c)) else m) [] cardData"

definition deckElixirAvgOf :: "CardDatum list \<Rightarrow> Card list option \<Rightarrow> rat" where
  "deckElixirAvgOf cardData mostUsed =
     (case mostUsed of
        None \<Rightarrow> 0
      | Some deck \<Rightarrow>
          (let tc = foldl (\<lambda>acc c. case objGet (elixirMap cardData) (name c) of
                                      None \<Rightarrow> acc
                                    | Some cost \<Rightarrow> (fst acc + cost, snd acc + 1))
                      (0, 0 :: int) deck
           in if snd tc > 0 then fst tc / of_int (snd tc) else 0))"

section \<open>Tower troops (PlayerUsageStats.tsx, lines 240--267)\<close>

record TowerCount =
  tc_count :: int
  tc_card :: Card

definition bumpTower :: "TowerCount obj \<Rightarrow> Card \<Rightarrow> TowerCount obj" where
  "bumpTower tcs c =
     (let e = (case objGet tcs (name c) of
                 None \<Rightarrow> \<lparr>tc_count = 0, tc_card = c\<rparr>
               | Some e \<Rightarrow> e)
      in objSet tcs (name c) (e\<lparr>tc_count := tc_count e + 1\<rparr>))"

text \<open>The accumulator is \<open>(towerCounts, totalTowerBattles)\<close>.\<close>

definition towerBattle :: "string \<Rightarrow> TowerCount obj \<times> int \<Rightarrow> Battle \<Rightarrow> TowerCount obj \<times> int" where
  "towerBattle playerTag acc battle =
     (case playerTeamOf playerTag battle of
        None \<Rightarrow> acc
      | Some playerTeam \<Rightarrow>
          (case supportCards playerTeam of
             None \<Rightarrow> acc
           | Some sc \<Rightarrow>
               if length sc > 0 then (foldl bumpTower (fst acc) sc, snd acc + 1) else acc))"

definition towerStep :: "Card option \<times> int \<Rightarrow> TowerCount \<Rightarrow> Card option \<times> int" where
  "towerStep acc item =
     (if tc_count item > snd acc then (Some (tc_card item), tc_count item) else acc)"

section \<open>The usage statistics (PlayerUsageStats.tsx, lines 39--298)\<close>

record UsageStats =
  bestCard :: "Card option"
  bestCardWinRate :: rat
  bestCardCount :: int
  mostUsedCard :: "Card option"
  mostUsedCardCount :: int
  mostUsedDeck :: "Card list option"
  mostUsedDeckCount :: int
  mostUsedDeckWins :: int
  deckElixirAvg :: rat
  mostUsedTower :: "Card option"
  mostUsedTowerCount :: int
  totalTowerBattles :: int
  totalBattles :: int

text \<open>
  The body of the \<^verbatim>\<open>useMemo\<close> callback: \<open>Inr None\<close> is the \<^verbatim>\<open>null\<close> it returns when
  there is no battle, or no ladder / path-of-legend battle; \<open>Inl\<close> is an exception thrown
  out of it.
\<close>

definition PlayerUsageStats ::
  "(string \<Rightarrow> string \<Rightarrow> int) \<Rightarrow> Battle list \<Rightarrow> string \<Rightarrow> CardDatum list
     \<Rightarrow> error + UsageStats option" where
  "PlayerUsageStats lc battles playerTag cardData =
     (if battles = [] then Inr None
      else if validBattles battles = [] then Inr None
      else
        (case countBattles lc playerTag battles of
           Inl e \<Rightarrow> Inl e
         | Inr st \<Rightarrow>
             (let best = selectBestCard (objectValues (cardCounts st));
                  used = selectMostUsedCard (objectValues (cardCounts st));
                  dk = selectMostUsedDeck (deckCounts st);
                  tw = foldl (towerBattle playerTag) ([], 0) battles;
                  mt = foldl towerStep (None, 0) (objectValues (fst tw))
              in Inr (Some \<lparr>bestCard = fst best,
                            bestCardWinRate = fst (snd best),
                            bestCardCount = snd (snd best),
                            mostUsedCard = fst used,
                            mostUsedCardCount = snd used,
                            mostUsedDeck = fst dk,
                            mostUsedDeckCount = fst (snd dk),
                            mostUsedDeckWins = snd (snd dk),
                            deckElixirAvg = deckElixirAvgOf cardData (fst dk),
                            mostUsedTower = fst mt,
                            mostUsedTowerCount = snd mt,
                            totalTowerBattles = snd tw,
                            totalBattles = int (length battles)\<rparr>))))"

section \<open>Archetype classification (getArchetype)\<close>

definition WIN_CONDITIONS :: "string list obj" where
  "WIN_CONDITIONS =
     [(''Beatdown'', [''Golem'', ''Lava Hound'', ''Giant'', ''Electro Giant'', ''Goblin Giant'',
                      ''Royal Giant'', ''Elixir Golem'']),
      (''Siege'', [''X-Bow'', ''Mortar'']),
      (''Control'', [''Miner'', ''Graveyard'', ''Goblin Barrel'', ''Wall Breakers'',
                     ''Skeleton Barrel'']),
      (''Cycle'', [''Hog Rider'', ''Royal Hogs'', ''Ram Rider'', ''Battle Ram'']),
      (''Bridge Spam'', [''P.E.K.K.A'', ''Mega Knight'', ''Elite Barbarians'',
                         ''Royal Recruits'']),
      (''Air'', [''Balloon'']),
      (''Three Musketeers'', [''Three Musketeers''])]"

fun arrayIncludes :: "'a list \<Rightarrow> 'a \<Rightarrow> bool" where
  "arrayIncludes [] v = False"
| "arrayIncludes (x # xs) v = (x = v \<or> arrayIncludes xs v)"

fun arraySome :: "('a \<Rightarrow> bool) \<Rightarrow> 'a list \<Rightarrow> bool" where
  "arraySome p [] = False"
| "arraySome p (x # xs) = (p x \<or> arraySome p xs)"

text \<open>The \<^verbatim>\<open>for ... of\<close> loop over the table's entries, returning at the first match.\<close>

fun firstArchetype :: "(string \<times> string list) list \<Rightarrow> string list \<Rightarrow> string" where
  "firstArchetype [] cardNames = ''Unknown''"
| "firstArchetype ((archetype, conditions) # rest) cardNames =
     (if arraySome (\<lambda>wc. arrayIncludes cardNames wc) conditions then archetype
      else firstArchetype rest cardNames)"

definition getArchetype :: "Card list \<Rightarrow> string" where
  "getArchetype cs = firstArchetype (objectEntries WIN_CONDITIONS) (map name cs)"

section \<open>Matchup aggregation (PlayerMatchupStats in BattleLogAnalytics.tsx)\<close>

record CardStat =
  cs_faced :: int
  cs_wins :: int
  cs_card :: Card

record DeckStat =
  ds_faced :: int
  ds_wins :: int
  ds_cards :: "Card list"

record ArchetypeStat =
  as_faced :: int
  as_wins :: int

record MatchupTables =
  cardStats :: "CardStat obj"
  deckStats :: "DeckStat obj"
  archetypeStats :: "ArchetypeStat obj"
  higherTrophiesFaced :: int
  higherTrophiesWins :: int
  lowerTrophiesFaced :: int
  lowerTrophiesWins :: int
  m_totalBattles :: int

definition bumpCardStat :: "bool \<Rightarrow> CardStat obj \<Rightarrow> Card \<Rightarrow> CardStat obj" where
  "bumpCardStat isWin cst c =
     (let e = (case objGet cst (name c) of
                 None \<Rightarrow> \<lparr>cs_faced = 0, cs_wins = 0, cs_card = c\<rparr>
               | Some e \<Rightarrow> e)
      in objSet cst (name c)
           (e\<lparr>cs_faced := cs_faced e + 1,
              cs_wins := (if isWin then cs_wins e + 1 else cs_wins e)\<rparr>))"

definition bumpDeckStat :: "bool \<Rightarrow> DeckStat obj \<Rightarrow> string \<Rightarrow> Card list \<Rightarrow> DeckStat obj" where
  "bumpDeckStat isWin dst dKey cs =
     (let e = (case objGet dst dKey of
                 None \<Rightarrow> \<lparr>ds_faced = 0, ds_wins = 0, ds_cards = cs\<rparr>
               | Some e \<Rightarrow> e)
      in objSet dst dKey
           (e\<lparr>ds_faced := ds_faced e + 1,
              ds_wins := (if isWin then ds_wins e + 1 else ds_wins e)\<rparr>))"

definition bumpArchetypeStat :: "bool \<Rightarrow> ArchetypeStat obj \<Rightarrow> string \<Rightarrow> ArchetypeStat obj" where
  "bumpArchetypeStat isWin ast archetype =
     (let e = (case objGet ast archetype of
                 None \<Rightarrow> \<lparr>as_faced = 0, as_wins = 0\<rparr>
               | Some e \<Rightarrow> e)
      in objSet ast archetype
           (e\<lparr>as_faced := as_faced e + 1,
              as_wins := (if isWin then as_wins e + 1 else as_wins e)\<rparr>))"

text \<open>\<^verbatim>\<open>player.crowns > opponent.crowns\<close>: false when either operand is undefined.\<close>

definition crownsGreater :: "int option \<Rightarrow> int option \<Rightarrow> bool" where
  "crownsGreater a b = (case (a, b) of (Some x, Some y) \<Rightarrow> x > y | _ \<Rightarrow> False)"

text \<open>A number is truthy when it is defined and not zero.\<close>

definition truthyNum :: "int option \<Rightarrow> bool" where
  "truthyNum v = (case v of None \<Rightarrow> False | Some n \<Rightarrow> n \<noteq> 0)"

definition opponentDeckKey :: "Card list \<Rightarrow> string" where
  "opponentDeckKey cs = join '','' (sortBy codeUnitCompare (map name cs))"

definition trophyGap :: "bool \<Rightarrow> BattleSide \<Rightarrow> BattleSide \<Rightarrow> MatchupTables \<Rightarrow> MatchupTables" where
  "trophyGap isWin player opp st =
     (if truthyNum (startingTrophies player) \<and> truthyNum (startingTrophies opp) then
        (if the (startingTrophies opp) > the (startingTrophies player) then
           st\<lparr>higherTrophiesFaced := higherTrophiesFaced st + 1,
              higherTrophiesWins :=
                (if isWin then higherTrophiesWins st + 1 else higherTrophiesWins st)\<rparr>
         else if the (startingTrophies opp) < the (startingTrophies player) then
           st\<lparr>lowerTrophiesFaced := lowerTrophiesFaced st + 1,
              lowerTrophiesWins :=
                (if isWin then lowerTrophiesWins st + 1 else lowerTrophiesWins st)\<rparr>
         else st)
      else st)"

text \<open>
  The body of \<^verbatim>\<open>battles.forEach\<close>. A battle of another mode, and a battle with no self
  side or no \<^verbatim>\<open>opponent[0]\<close>, is skipped; \<^verbatim>\<open>opponent.cards.forEach\<close> raises a TypeError
  when the opponent has no card list.
\<close>

definition faceBattle :: "string \<Rightarrow> MatchupTables \<Rightarrow> Battle \<Rightarrow> error + MatchupTables" where
  "faceBattle playerTag st battle =
     (if battleType battle \<noteq> ''PvP'' \<and> battleType battle \<noteq> ''pathOfLegend'' then Inr st
      else
        (case playerTeamOf playerTag battle of
           None \<Rightarrow> Inr st
         | Some player \<Rightarrow>
             (case opponent battle of
                [] \<Rightarrow> Inr st
              | opp # _ \<Rightarrow>
                  (let isWin = crownsGreater (crowns player) (crowns opp)
                   in case cards opp of
                        None \<Rightarrow> Inl TypeError
                      | Some ocs \<Rightarrow>
                          Inr (trophyGap isWin player opp
                                 (st\<lparr>m_totalBattles := m_totalBattles st + 1,
                                     cardStats := foldl (bumpCardStat isWin) (cardStats st) ocs,
                                     deckStats :=
                                       bumpDeckStat isWin (deckStats st) (opponentDeckKey ocs) ocs,
                                     archetypeStats :=
                                       bumpArchetypeStat isWin (archetypeStats st)
                                         (getArchetype ocs)\<rparr>))))))"

definition faceBattles :: "string \<Rightarrow> Battle list \<Rightarrow> error + MatchupTables" where
  "faceBattles playerTag battles =
     forEachE (faceBattle playerTag)
       \<lparr>cardStats = [], deckStats = [], archetypeStats = [],
        higherTrophiesFaced = 0, higherTrophiesWins = 0,
        lowerTrophiesFaced = 0, lowerTrophiesWins = 0, m_totalBattles = 0\<rparr>
       battles"

subsection \<open>Derived views (lines 394--423)\<close>

definition cardRate :: "CardStat \<Rightarrow> rat" where
  "cardRate s = winRate (cs_wins s) (cs_faced s)"

definition strugglingCardsOf :: "CardStat list \<Rightarrow> CardStat list" where
  "strugglingCardsOf cardsArray =
     take 6 (sortBy (\<lambda>a b. cardRate a - cardRate b)
               (filter (\<lambda>s. cs_faced s \<ge> 3 \<and> cardRate s < 1 / 2) cardsArray))"

definition easyCardsOf :: "CardStat list \<Rightarrow> CardStat list" where
  "easyCardsOf cardsArray =
     take 6 (sortBy (\<lambda>a b. cardRate b - cardRate a)
               (filter (\<lambda>s. cs_faced s \<ge> 3 \<and> cardRate s \<ge> 1 / 2) cardsArray))"

definition mostFacedCardsOf :: "CardStat list \<Rightarrow> CardStat list" where
  "mostFacedCardsOf cardsArray = take 8 (sortBy (\<lambda>a b. cs_faced b - cs_faced a) cardsArray)"

definition mostFacedDecksOf :: "DeckStat list \<Rightarrow> DeckStat list" where
  "mostFacedDecksOf decks = take 5 (sortBy (\<lambda>a b. ds_faced b - ds_faced a) decks)"

text \<open>
  A row of \<^verbatim>\<open>archetypeChartData\<close>, with its \<^verbatim>\<open>name\<close> and \<^verbatim>\<open>faced\<close> fields. The third field
  of the source row, \<^verbatim>\<open>winRate: Math.round((stat.wins / stat.faced) * 100)\<close>, is a rounding
  of a double-precision product that only colours the bar chart; it takes no part in the
  filter or the order of the rows and is left out of the row.
\<close>

record ArchetypeRow =
  ar_name :: string
  ar_faced :: int

definition archetypeChartDataOf :: "ArchetypeStat obj \<Rightarrow> ArchetypeRow list" where
  "archetypeChartDataOf ast =
     sortBy (\<lambda>a b. ar_faced b - ar_faced a)
       (map (\<lambda>kv. \<lparr>ar_name = fst kv, ar_faced = as_faced (snd kv)\<rparr>)
          (filter (\<lambda>kv. fst kv \<noteq> ''Unknown'') (objectEntries ast)))"

record MatchupStats =
  ms_totalBattles :: int
  strugglingCards :: "CardStat list"
  easyCards :: "CardStat list"
  mostFacedCards :: "CardStat list"
  mostFacedDecks :: "DeckStat list"
  archetypeChartData :: "ArchetypeRow list"
  higher :: "int \<times> int"
  lower :: "int \<times> int"

definition PlayerMatchupStats :: "Battle list \<Rightarrow> string \<Rightarrow> error + MatchupStats option" where
  "PlayerMatchupStats battles playerTag =
     (if battles = [] then Inr None
      else
        (case faceBattles playerTag battles of
           Inl e \<Rightarrow> Inl e
         | Inr st \<Rightarrow>
             Inr (Some \<lparr>ms_totalBattles = m_totalBattles st,
                        strugglingCards = strugglingCardsOf (objectValues (cardStats st)),
                        easyCards = easyCardsOf (objectValues (cardStats st)),
                        mostFacedCards = mostFacedCardsOf (objectValues (cardStats st)),
                        mostFacedDecks = mostFacedDecksOf (objectValues (deckStats st)),
                        archetypeChartData = archetypeChartDataOf (archetypeStats st),
                        higher = (higherTrophiesFaced st, higherTrophiesWins st),
                        lower = (lowerTrophiesFaced st, lowerTrophiesWins st)\<rparr>)))"

section \<open>Matchup significance\<close>

text \<open>
  Modelled from the spec: the significance engine is not among the source files (the heatmap
  component only reads \<^verbatim>\<open>z_score\<close> and \<^verbatim>\<open>significant\<close> from the rows it is given). The
  threshold is the spec's named constant, 1.96.
\<close>

definition Z_THRESHOLD :: real where
  "Z_THRESHOLD = 196 / 100"

text \<open>
  Modelled from the spec: \<open>z = (p - 0.5) / sqrt(0.25 / n)\<close> for a win rate \<open>p\<close> over \<open>n\<close>
  decided samples.
\<close>

definition zScore :: "real \<Rightarrow> nat \<Rightarrow> real" where
  "zScore p n = (p - 1 / 2) / sqrt ((1 / 4) / real n)"

text \<open>
  Modelled from the spec: a cell is significant when \<open>|z|\<close> exceeds the threshold.
\<close>

definition significant :: "real \<Rightarrow> nat \<Rightarrow> bool" where
  "significant p n \<longleftrightarrow> \<bar>zScore p n\<bar> > Z_THRESHOLD"

section \<open>Vocabulary of the specification\<close>

text \<open>
  A consistent comparator, as \<^verbatim>\<open>Array.prototype.sort\<close> requires: total and transitive. It
  need not be antisymmetric: \<^verbatim>\<open>localeCompare\<close> returns 0 for some pairs of different
  strings. \<open>ascending\<close>: no element comes after a later one.
\<close>

definition consistentCompare :: "('a \<Rightarrow> 'a \<Rightarrow> int) \<Rightarrow> bool" where
  "consistentCompare cmp \<longleftrightarrow>
     (\<forall>a b. cmp a b \<le> 0 \<or> cmp b a \<le> 0) \<and>
     (\<forall>a b c. cmp a b \<le> 0 \<longrightarrow> cmp b c \<le> 0 \<longrightarrow> cmp a c \<le> 0)"

fun ascending :: "('a \<Rightarrow> 'a \<Rightarrow> int) \<Rightarrow> 'a list \<Rightarrow> bool" where
  "ascending cmp [] = True"
| "ascending cmp (x # xs) = ((\<forall>y \<in> set xs. cmp x y \<le> 0) \<and> ascending cmp xs)"

text \<open>
  A comparator with a tie of the kind locale collation has: the control character U+0001 is
  ignored, so the names \<^verbatim>\<open>A\u0001\<close> and \<^verbatim>\<open>A\<close> compare equal
  (\<^verbatim>\<open>'A\u0001'.localeCompare('A') === 0\<close>); the rest is compared by code unit.
\<close>

definition ignorable :: "char \<Rightarrow> bool" where
  "ignorable c \<longleftrightarrow> c = CHR 0x01"

definition collateCompare :: "string \<Rightarrow> string \<Rightarrow> int" where
  "collateCompare a b =
     codeUnitCompare (filter (\<lambda>c. \<not> ignorable c) a) (filter (\<lambda>c. \<not> ignorable c) b)"

text \<open>The names that survive de-duplication, in the order of the \<^verbatim>\<open>Map\<close>.\<close>

definition uniqueNames :: "Card list \<Rightarrow> string list" where
  "uniqueNames cs = map name (map snd (uniqueCardsMap cs))"

text \<open>A table entry's trigger set shares a name with the card names.\<close>

definition triggers :: "(string \<times> string list) \<Rightarrow> string list \<Rightarrow> bool" where
  "triggers entry cardNames \<longleftrightarrow> set (snd entry) \<inter> set cardNames \<noteq> {}"

text \<open>
  A bucket that has been incremented at least once: its wins lie between zero and its
  count. \<open>rateInUnit\<close> is what the claims say of a bucket: the wins do not exceed the
  count, and the rate over a nonzero count lies in the unit interval.
\<close>

definition bucketOk :: "int \<Rightarrow> int \<Rightarrow> bool" where
  "bucketOk w n \<longleftrightarrow> 0 \<le> w \<and> w \<le> n \<and> 1 \<le> n"

definition deckOk :: "DeckCount \<Rightarrow> bool" where
  "deckOk d \<longleftrightarrow> bucketOk (dc_wins d) (dc_count d) \<and> dc_variants d \<noteq> [] \<and>
     (\<forall>q \<in> set (dc_variants d). bucketOk (vc_wins (snd q)) (vc_count (snd q)))"

definition usageInv :: "UsageTables \<Rightarrow> bool" where
  "usageInv st \<longleftrightarrow>
     (\<forall>p \<in> set (cardCounts st). bucketOk (cc_wins (snd p)) (cc_count (snd p))) \<and>
     (\<forall>p \<in> set (deckCounts st).
        bucketOk (dc_wins (snd p)) (dc_count (snd p)) \<and> dc_variants (snd p) \<noteq> [] \<and>
        (\<forall>q \<in> set (dc_variants (snd p)). bucketOk (vc_wins (snd q)) (vc_count (snd q))))"

definition matchupInv :: "MatchupTables \<Rightarrow> bool" where
  "matchupInv st \<longleftrightarrow>
     (\<forall>p \<in> set (cardStats st). bucketOk (cs_wins (snd p)) (cs_faced (snd p))) \<and>
     (\<forall>p \<in> set (deckStats st). bucketOk (ds_wins (snd p)) (ds_faced (snd p))) \<and>
     (\<forall>p \<in> set (archetypeStats st). bucketOk (as_wins (snd p)) (as_faced (snd p))) \<and>
     0 \<le> higherTrophiesWins st \<and> higherTrophiesWins st \<le> higherTrophiesFaced st \<and>
     0 \<le> lowerTrophiesWins st \<and> lowerTrophiesWins st \<le> lowerTrophiesFaced st"

definition rateInUnit :: "int \<Rightarrow> int \<Rightarrow> bool" where
  "rateInUnit w n \<longleftrightarrow> w \<le> n \<and> (n \<noteq> 0 \<longrightarrow> 0 \<le> winRate w n \<and> winRate w n \<le> 1)"

text \<open>
  \<open>firstBest lt xs i\<close>: position \<open>i\<close> holds a maximum of \<open>xs\<close> for the strict order
  \<open>lt\<close>, and every earlier position holds a strictly smaller element; this is what a scan
  with a strict greater-than test keeps. Decks and variants are ordered by count, then wins.
\<close>

definition firstBest :: "('a \<Rightarrow> 'a \<Rightarrow> bool) \<Rightarrow> 'a list \<Rightarrow> nat \<Rightarrow> bool" where
  "firstBest lt xs i \<longleftrightarrow>
     i < length xs \<and> (\<forall>j<length xs. \<not> lt (xs ! i) (xs ! j)) \<and> (\<forall>j<i. lt (xs ! j) (xs ! i))"

definition deckLess :: "DeckCount \<Rightarrow> DeckCount \<Rightarrow> bool" where
  "deckLess a b \<longleftrightarrow> dc_count a < dc_count b \<or> (dc_count a = dc_count b \<and> dc_wins a < dc_wins b)"

definition variantLess :: "VariantCount \<Rightarrow> VariantCount \<Rightarrow> bool" where
  "variantLess a b \<longleftrightarrow> vc_count a < vc_count b \<or> (vc_count a = vc_count b \<and> vc_wins a < vc_wins b)"

text \<open>Cards are ranked by count for "most used", and by win rate for "best".\<close>

definition itemRate :: "CardCount \<Rightarrow> rat" where
  "itemRate item = winRate (cc_wins item) (cc_count item)"

definition countLess :: "CardCount \<Rightarrow> CardCount \<Rightarrow> bool" where
  "countLess a b \<longleftrightarrow> cc_count a < cc_count b"

text \<open>
  An opposing card qualifies as a hard counter when it was faced at least 3 times and the
  win rate against it is below one half. \<open>hardestCounterNames\<close> and \<open>facedAndWins\<close> read the
  reported list and one card's bucket off a run of the matchup statistics.
\<close>

definition struggling :: "CardStat \<Rightarrow> bool" where
  "struggling s \<longleftrightarrow> 3 \<le> cs_faced s \<and> cardRate s < 1 / 2"

definition hardestCounterNames :: "Battle list \<Rightarrow> string \<Rightarrow> string list option" where
  "hardestCounterNames battles playerTag =
     (case PlayerMatchupStats battles playerTag of
        Inr (Some ms) \<Rightarrow> Some (map (\<lambda>s. name (cs_card s)) (strugglingCards ms))
      | _ \<Rightarrow> None)"

definition facedAndWins :: "Battle list \<Rightarrow> string \<Rightarrow> string \<Rightarrow> (int \<times> int) option" where
  "facedAndWins battles playerTag n =
     (case faceBattles playerTag battles of
        Inr st \<Rightarrow> map_option (\<lambda>s. (cs_faced s, cs_wins s)) (objGet (cardStats st) n)
      | _ \<Rightarrow> None)"

text \<open>
  The support cards of the resolved self side of a battle (none when the side or its list is
  missing), whether a battle reports any, how often a name occurs among them over a battle
  list, and the tower table the loop over \<^verbatim>\<open>battles\<close> builds.
\<close>

definition supportCardsOf :: "string \<Rightarrow> Battle \<Rightarrow> Card list" where
  "supportCardsOf playerTag battle =
     (case playerTeamOf playerTag battle of
        None \<Rightarrow> []
      | Some playerTeam \<Rightarrow> (case supportCards playerTeam of None \<Rightarrow> [] | Some sc \<Rightarrow> sc))"

definition reportsTower :: "string \<Rightarrow> Battle \<Rightarrow> bool" where
  "reportsTower playerTag battle \<longleftrightarrow> supportCardsOf playerTag battle \<noteq> []"

definition towerUses :: "string \<Rightarrow> Battle list \<Rightarrow> string \<Rightarrow> int" where
  "towerUses playerTag battles n =
     int (count_list (map name (concat (map (supportCardsOf playerTag) battles))) n)"

definition towerCountsOf :: "string \<Rightarrow> Battle list \<Rightarrow> TowerCount obj" where
  "towerCountsOf playerTag battles = fst (foldl (towerBattle playerTag) ([], 0) battles)"

definition towerCountOf :: "TowerCount obj \<Rightarrow> string \<Rightarrow> int" where
  "towerCountOf tcs n = (case objGet tcs n of None \<Rightarrow> 0 | Some e \<Rightarrow> tc_count e)"

definition towerLess :: "TowerCount \<Rightarrow> TowerCount \<Rightarrow> bool" where
  "towerLess a b \<longleftrightarrow> tc_count a < tc_count b"

subsection \<open>Sample data\<close>

definition plainCard :: "string \<Rightarrow> Card" where
  "plainCard n = \<lparr>name = n, card_id = 0,
     iconUrls = \<lparr>medium = [], evolutionMedium = None, heroMedium = None\<rparr>,
     evolutionLevel = None\<rparr>"

definition evoCard :: "string \<Rightarrow> Card" where
  "evoCard n = (plainCard n)\<lparr>evolutionLevel := Some 1\<rparr>"

definition nameA1 :: string where
  "nameA1 = [CHR ''A'', CHR 0x01]"

definition tiedCards :: "Card list" where
  "tiedCards = map plainCard [''L'', ''C'', ''K'', ''B'', ''J'', nameA1, ''A'', ''I'', ''H'', ''C'',
     ''G'', ''F'', ''E'', ''D'']"

definition side :: "string \<Rightarrow> Card list \<Rightarrow> int \<Rightarrow> BattleSide" where
  "side t cs cr = \<lparr>tag = t, cards = Some cs, supportCards = None, crowns = Some cr,
     startingTrophies = None\<rparr>"

definition deckAH :: "Card list" where
  "deckAH = map plainCard [''A'', ''B'', ''C'', ''D'', ''E'', ''F'', ''G'', ''H'']"

definition sampleBattles :: "Battle list" where
  "sampleBattles =
     [\<lparr>battleType = ''PvP'', team = [side ''#P'' deckAH 3],
       opponent = [side ''#O'' (map plainCard [''Golem'', ''X'']) 1]\<rparr>,
      \<lparr>battleType = ''PvP'', team = [side ''#P'' deckAH 1],
       opponent = [side ''#O'' (map plainCard [''Golem'', ''Y'']) 2]\<rparr>]"

definition noOpponentBattle :: Battle where
  "noOpponentBattle = \<lparr>battleType = ''PvP'', team = [side ''#P'' deckAH 2], opponent = []\<rparr>"

definition winBattle :: "Card list \<Rightarrow> Card list \<Rightarrow> Battle" where
  "winBattle mine theirs =
     \<lparr>battleType = ''PvP'', team = [side ''#P'' mine 3], opponent = [side ''#O'' theirs 0]\<rparr>"

definition lossBattle :: "Card list \<Rightarrow> Card list \<Rightarrow> Battle" where
  "lossBattle mine theirs =
     \<lparr>battleType = ''PvP'', team = [side ''#P'' mine 0], opponent = [side ''#O'' theirs 1]\<rparr>"

definition fiveBattles :: "Battle list" where
  "fiveBattles =
     [winBattle (map plainCard [''A'', ''C'']) (map plainCard [''Golem'']),
      winBattle (map plainCard [''A'', ''C'']) (map plainCard [''Golem'']),
      winBattle (map plainCard [''A'', ''C'']) (map plainCard [''Golem'']),
      winBattle (map plainCard [''A'', ''C'']) (map plainCard [''Golem'']),
      lossBattle (map plainCard [''A'']) (map plainCard [''Golem''])]"

definition threeBattles :: "Battle list" where
  "threeBattles =
     [lossBattle deckAH (map plainCard [''X'', ''Y'']),
      lossBattle deckAH (map plainCard [''X'', ''Y'']),
      winBattle deckAH (map plainCard [''X''])]"

definition capBattles :: "Battle list" where
  "capBattles =
     [lossBattle deckAH (map plainCard [''A'', ''B'', ''C'', ''D'', ''E'', ''F'', ''X'']),
      lossBattle deckAH (map plainCard [''A'', ''B'', ''C'', ''D'', ''E'', ''F'', ''X'']),
      lossBattle deckAH (map plainCard [''A'', ''B'', ''C'', ''D'', ''E'', ''F'']),
      winBattle deckAH (map plainCard [''X''])]"

definition deckBattles :: "Battle list" where
  "deckBattles =
     [winBattle (map plainCard [''G'', ''H'']) [plainCard ''X'']] @
     replicate 7 (lossBattle (map plainCard [''A'', ''B'']) [plainCard ''X'']) @
     [winBattle [plainCard ''C'', plainCard ''D''] [plainCard ''X''],
      lossBattle [evoCard ''C'', plainCard ''D''] [plainCard ''X''],
      lossBattle [evoCard ''C'', plainCard ''D''] [plainCard ''X''],
      winBattle [plainCard ''C'', evoCard ''D''] [plainCard ''X''],
      lossBattle [plainCard ''C'', evoCard ''D''] [plainCard ''X''],
      winBattle [evoCard ''C'', evoCard ''D''] [plainCard ''X''],
      lossBattle [evoCard ''C'', evoCard ''D''] [plainCard ''X'']] @
     replicate 3 (winBattle (map plainCard [''E'', ''F'']) [plainCard ''X'']) @
     replicate 4 (lossBattle (map plainCard [''E'', ''F'']) [plainCard ''X'']) @
     [winBattle (map plainCard [''I'', ''J'']) [plainCard ''X'']]"

definition friendlyTowerBattle :: Battle where
  "friendlyTowerBattle =
     \<lparr>battleType = ''friendly'',
      team = [\<lparr>tag = ''#P'', cards = Some deckAH,
               supportCards = Some [plainCard ''Tower Princess''], crowns = Some 1,
               startingTrophies = None\<rparr>],
      opponent = [side ''#O'' deckAH 0]\<rparr>"

section \<open>Sorting with a comparator\<close>

lemma set_insortBy: "set (insortBy cmp x xs) = insert x (set xs)"
  by (induction xs) auto

lemma set_sortBy: "set (sortBy cmp xs) = set xs"
  by (induction xs) (simp_all add: sortBy_def set_insortBy)

lemma length_insortBy: "length (insortBy cmp x xs) = Suc (length xs)"
  by (induction xs) auto

lemma length_sortBy: "length (sortBy cmp xs) = length xs"
  by (induction xs) (simp_all add: sortBy_def length_insortBy)

lemma distinct_insortBy: "distinct (insortBy cmp x xs) \<longleftrightarrow> x \<notin> set xs \<and> distinct xs"
  by (induction xs) (auto simp: set_insortBy)

lemma distinct_sortBy: "distinct (sortBy cmp xs) \<longleftrightarrow> distinct xs"
  by (induction xs) (simp_all add: sortBy_def distinct_insortBy set_sortBy[unfolded sortBy_def])

lemma ascending_insortBy:
  assumes "consistentCompare cmp" "ascending cmp xs"
  shows "ascending cmp (insortBy cmp x xs)"
  using assms(2)
proof (induction xs)
  case Nil
  then show ?case by simp
next
  case (Cons y ys)
  from assms(1) have tot: "\<And>a b. cmp a b \<le> 0 \<or> cmp b a \<le> 0"
    and tr: "\<And>a b c. cmp a b \<le> 0 \<Longrightarrow> cmp b c \<le> 0 \<Longrightarrow> cmp a c \<le> 0"
    unfolding consistentCompare_def by blast+
  show ?case
  proof (cases "cmp x y \<le> 0")
    case True
    with Cons.prems tr show ?thesis by auto
  next
    case False
    with tot have "cmp y x \<le> 0" by blast
    with False Cons show ?thesis by (auto simp: set_insortBy)
  qed
qed

lemma ascending_sortBy: "consistentCompare cmp \<Longrightarrow> ascending cmp (sortBy cmp xs)"
  by (induction xs) (simp_all add: sortBy_def ascending_insortBy)

lemma ascending_unique:
  "ascending cmp xs \<Longrightarrow> ascending cmp ys \<Longrightarrow> distinct xs \<Longrightarrow> distinct ys
   \<Longrightarrow> set xs = set ys
   \<Longrightarrow> (\<forall>a \<in> set xs. \<forall>b \<in> set xs. cmp a b \<le> 0 \<longrightarrow> cmp b a \<le> 0 \<longrightarrow> a = b)
   \<Longrightarrow> xs = ys"
proof (induction xs arbitrary: ys)
  case Nil
  then show ?case by simp
next
  case (Cons x xs)
  from Cons.prems(6) have anti:
    "\<And>a b. a \<in> set (x # xs) \<Longrightarrow> b \<in> set (x # xs) \<Longrightarrow> cmp a b \<le> 0 \<Longrightarrow> cmp b a \<le> 0
       \<Longrightarrow> a = b"
    by blast
  from Cons.prems obtain y ys' where ys: "ys = y # ys'" by (cases ys) auto
  have "x = y"
  proof (rule ccontr)
    assume ne: "x \<noteq> y"
    with Cons.prems(5) ys have m: "x \<in> set ys'" "y \<in> set xs" by auto
    with Cons.prems(1,2) ys have "cmp y x \<le> 0" "cmp x y \<le> 0" by auto
    with anti[of x y] m ne show False by simp
  qed
  moreover from this Cons.prems(3,4,5) ys have "set xs = set ys'" by auto
  moreover from Cons.prems(6)
  have "\<forall>a \<in> set xs. \<forall>b \<in> set xs. cmp a b \<le> 0 \<longrightarrow> cmp b a \<le> 0 \<longrightarrow> a = b" by simp
  ultimately show ?case using Cons.IH[of ys'] Cons.prems(1-4) ys by auto
qed

lemma ascending_take: "ascending cmp xs \<Longrightarrow> ascending cmp (take n xs)"
proof (induction xs arbitrary: n)
  case Nil
  then show ?case by simp
next
  case (Cons x xs)
  then show ?case by (cases n) (auto dest: in_set_takeD)
qed

lemma map_insortBy:
  "map f (insortBy (\<lambda>a b. cmp (f a) (f b)) x xs) = insortBy cmp (f x) (map f xs)"
  by (induction xs) auto

lemma map_sortBy: "map f (sortBy (\<lambda>a b. cmp (f a) (f b)) xs) = sortBy cmp (map f xs)"
  by (induction xs) (simp_all add: sortBy_def map_insortBy)

lemma mset_insortBy: "mset (insortBy cmp x xs) = add_mset x (mset xs)"
  by (induction xs) simp_all

lemma mset_sortBy: "mset (sortBy cmp xs) = mset xs"
  by (induction xs) (simp_all add: sortBy_def mset_insortBy)

lemma ascending_unique_mset:
  assumes anti: "\<And>a b. cmp a b \<le> 0 \<Longrightarrow> cmp b a \<le> 0 \<Longrightarrow> a = b"
  shows "ascending cmp xs \<Longrightarrow> ascending cmp ys \<Longrightarrow> mset xs = mset ys \<Longrightarrow> xs = ys"
proof (induction xs arbitrary: ys)
  case Nil
  then show ?case by simp
next
  case (Cons x xs)
  from Cons.prems(3) obtain y ys' where ys: "ys = y # ys'" by (cases ys) auto
  from Cons.prems(3) have sets: "set (x # xs) = set ys" by (rule mset_eq_setD)
  have "x = y"
  proof (rule ccontr)
    assume ne: "x \<noteq> y"
    with sets ys have m: "x \<in> set ys'" "y \<in> set xs" by auto
    with Cons.prems(1,2) ys have "cmp y x \<le> 0" "cmp x y \<le> 0" by auto
    with anti ne show False by blast
  qed
  moreover from this Cons.prems(3) ys have "mset xs = mset ys'" by simp
  ultimately show ?case using Cons.IH[of ys'] Cons.prems(1,2) ys by simp
qed

lemma codeUnitCompare_total: "codeUnitCompare a b \<le> 0 \<or> codeUnitCompare b a \<le> 0"
  by (induction a b rule: codeUnitCompare.induct) simp_all

lemma codeUnit_eq: "\<not> (of_char x :: nat) < of_char y \<Longrightarrow> \<not> (of_char y :: nat) < of_char x \<Longrightarrow> x = y"
proof -
  assume "\<not> (of_char x :: nat) < of_char y" "\<not> (of_char y :: nat) < of_char x"
  then have "(of_char x :: nat) = of_char y" by simp
  then show "x = y" by (simp only: of_char_eq_iff)
qed

lemma codeUnitCompare_antisym:
  "codeUnitCompare a b \<le> 0 \<Longrightarrow> codeUnitCompare b a \<le> 0 \<Longrightarrow> a = b"
proof (induction a b rule: codeUnitCompare.induct)
  case (4 x xs y ys)
  show ?case
  proof (cases "(of_char x :: nat) < of_char y")
    case True
    with "4.prems" show ?thesis by simp
  next
    case False
    note nlt = this
    show ?thesis
    proof (cases "(of_char y :: nat) < of_char x")
      case True
      with nlt "4.prems" show ?thesis by simp
    next
      case False
      with nlt have "x = y" by (rule codeUnit_eq)
      moreover from nlt False "4.prems" "4.IH" have "xs = ys" by simp
      ultimately show ?thesis by simp
    qed
  qed
qed simp_all

lemma codeUnitCompare_trans:
  "codeUnitCompare a b \<le> 0 \<Longrightarrow> codeUnitCompare b c \<le> 0 \<Longrightarrow> codeUnitCompare a c \<le> 0"
proof (induction a b arbitrary: c rule: codeUnitCompare.induct)
  case 1
  then show ?case by simp
next
  case (2 y ys)
  then show ?case by (cases c) simp_all
next
  case (3 x xs)
  then show ?case by simp
next
  case (4 x xs y ys)
  show ?case
  proof (cases c)
    case Nil
    with "4.prems" show ?thesis by simp
  next
    case (Cons z zs)
    from "4.prems"(1) have xy: "(of_char x :: nat) \<le> of_char y"
      by (simp split: if_splits)
    from "4.prems"(2) Cons have yz: "(of_char y :: nat) \<le> of_char z"
      by (simp split: if_splits)
    show ?thesis
    proof (cases "(of_char x :: nat) < of_char z")
      case True
      with Cons show ?thesis by simp
    next
      case False
      with xy yz have "\<not> (of_char x :: nat) < of_char y" "\<not> (of_char y :: nat) < of_char x"
        "\<not> (of_char y :: nat) < of_char z" "\<not> (of_char z :: nat) < of_char y"
        by linarith+
      then have e: "x = y" "y = z" by (auto intro: codeUnit_eq)
      with "4.prems" Cons have "codeUnitCompare xs ys \<le> 0" "codeUnitCompare ys zs \<le> 0"
        by simp_all
      with "4.IH"[of zs] e have "codeUnitCompare xs zs \<le> 0" by simp
      with e Cons show ?thesis by simp
    qed
  qed
qed

lemma consistentCompare_codeUnitCompare: "consistentCompare codeUnitCompare"
  unfolding consistentCompare_def
  using codeUnitCompare_total codeUnitCompare_trans by blast

lemma consistentCompare_collateCompare: "consistentCompare collateCompare"
  unfolding consistentCompare_def collateCompare_def
  using codeUnitCompare_total codeUnitCompare_trans by blast

lemma collateCompare_ties:
  "collateCompare nameA1 ''A'' = 0 \<and> collateCompare ''A'' nameA1 = 0 \<and> nameA1 \<noteq> ''A''"
  by (simp add: collateCompare_def nameA1_def ignorable_def)

section \<open>Objects and loops\<close>

lemma map_fst_objSet:
  "map fst (objSet m k v) = (if k \<in> set (map fst m) then map fst m else map fst m @ [k])"
  by (induction m) (auto simp: rev_image_eqI)

lemma set_objSet: "p \<in> set (objSet m k v) \<Longrightarrow> p \<in> set m \<or> p = (k, v)"
  by (induction m) (auto split: if_splits)

lemma objGet_in_set: "objGet m k = Some e \<Longrightarrow> (k, e) \<in> set m"
  unfolding objGet_def by (rule map_of_SomeD)

lemma objGet_objSet: "objGet (objSet m k v) k' = (if k' = k then Some v else objGet m k')"
  by (induction m k v rule: objSet.induct) (auto simp: objGet_def)

lemma objSet_nonempty: "objSet m k v \<noteq> []"
  by (induction m k v rule: objSet.induct) simp_all

lemma obj_bump_inv:
  assumes all: "\<forall>p \<in> set m. P (snd p)" and new: "P (f d)" and old: "\<And>e. P e \<Longrightarrow> P (f e)"
  shows "\<forall>p \<in> set (objSet m k (f (case objGet m k of None \<Rightarrow> d | Some e \<Rightarrow> e))). P (snd p)"
proof (intro ballI)
  fix p
  define v where "v = f (case objGet m k of None \<Rightarrow> d | Some e \<Rightarrow> e)"
  assume "p \<in> set (objSet m k (f (case objGet m k of None \<Rightarrow> d | Some e \<Rightarrow> e)))"
  then have "p \<in> set (objSet m k v)" by (simp only: v_def)
  then have c: "p \<in> set m \<or> p = (k, v)" by (rule set_objSet)
  have pv: "P v"
  proof (cases "objGet m k")
    case None
    then show ?thesis using new by (simp add: v_def)
  next
    case (Some e)
    then have "(k, e) \<in> set m" by (rule objGet_in_set)
    with all have "P (snd (k, e))" by (rule bspec)
    then have "P (f e)" using old by simp
    with Some show ?thesis by (simp add: v_def)
  qed
  from c show "P (snd p)"
  proof
    assume "p \<in> set m"
    with all show ?thesis by (rule bspec)
  next
    assume "p = (k, v)"
    with pv show ?thesis by simp
  qed
qed

lemma foldl_inv: "P s \<Longrightarrow> (\<And>s x. P s \<Longrightarrow> P (f s x)) \<Longrightarrow> P (foldl f s xs)"
  by (induction xs arbitrary: s) simp_all

lemma forEachE_inv:
  assumes "P s" and "\<And>s x s'. P s \<Longrightarrow> f s x = Inr s' \<Longrightarrow> P s'"
      and "forEachE f s xs = Inr r"
  shows "P r"
  using assms(1,3)
proof (induction xs arbitrary: s)
  case Nil
  then show ?case by simp
next
  case (Cons x xs)
  from Cons.prems(2) obtain s' where s': "f s x = Inr s'" and r: "forEachE f s' xs = Inr r"
    by (auto split: sum.splits)
  from assms(2)[OF Cons.prems(1) s'] have "P s'" .
  from Cons.IH[OF this r] show ?case .
qed

lemma forEachE_throws:
  assumes "x \<in> set xs" and "\<And>s. f s x = Inl TypeError"
  shows "forEachE f s xs = Inl TypeError"
  using assms(1)
proof (induction xs arbitrary: s)
  case Nil
  then show ?case by simp
next
  case (Cons y ys)
  show ?case
  proof (cases "f s y")
    case (Inl e)
    then show ?thesis by (cases e) simp
  next
    case (Inr s')
    show ?thesis
    proof (cases "x = y")
      case True
      with assms(2)[of s] Inr show ?thesis by simp
    next
      case False
      with Cons.prems have "x \<in> set ys" by simp
      from Cons.IH[OF this] Inr show ?thesis by simp
    qed
  qed
qed

lemma set_objectEntries: "set (objectEntries ob) = set ob"
  by (auto simp: objectEntries_def)

lemma set_objectValues: "set (objectValues ob) = snd ` set ob"
  by (simp add: objectValues_def set_objectEntries)

lemma length_objectValues: "length (objectValues ob) = length ob"
  by (simp add: objectValues_def objectEntries_def sum_length_filter_compl)

lemma objectValues_empty: "objectValues ob = [] \<longleftrightarrow> ob = []"
  using length_objectValues[of ob] by (metis length_0_conv)

text \<open>
  A scan that replaces its candidate only on a strictly greater key, among the elements that
  pass a test, ends on the first element of greatest key among them.
\<close>

lemma foldl_first_max:
  fixes key :: "'a \<Rightarrow> 'k::linorder" and getk :: "'s \<Rightarrow> 'k"
  assumes step: "\<And>acc x. step acc x = (if q x \<and> getk acc < key x then upd x else acc)"
      and upd: "\<And>x. getk (upd x) = key x"
      and low: "\<forall>x \<in> set xs. q x \<longrightarrow> getk init < key x"
  shows "if \<exists>x \<in> set xs. q x
         then \<exists>i<length xs. q (xs ! i) \<and> foldl step init xs = upd (xs ! i) \<and>
                (\<forall>j<length xs. q (xs ! j) \<longrightarrow> key (xs ! j) \<le> key (xs ! i)) \<and>
                (\<forall>j<i. q (xs ! j) \<longrightarrow> key (xs ! j) < key (xs ! i))
         else foldl step init xs = init"
  using low
proof (induction xs rule: rev_induct)
  case Nil
  then show ?case by simp
next
  case (snoc x xs)
  from snoc.prems have low': "\<forall>y \<in> set xs. q y \<longrightarrow> getk init < key y" and
    lowx: "q x \<Longrightarrow> getk init < key x" by simp_all
  note IH = snoc.IH[OF low']
  have fold: "foldl step init (xs @ [x]) = step (foldl step init xs) x" by simp
  show ?case
  proof (cases "\<exists>y \<in> set xs. q y")
    case True
    with IH obtain i where i: "i < length xs" "q (xs ! i)" "foldl step init xs = upd (xs ! i)"
      and mx: "\<forall>j<length xs. q (xs ! j) \<longrightarrow> key (xs ! j) \<le> key (xs ! i)"
      and fst: "\<forall>j<i. q (xs ! j) \<longrightarrow> key (xs ! j) < key (xs ! i)"
      by auto
    have ex: "\<exists>y \<in> set (xs @ [x]). q y" using True by auto
    show ?thesis
    proof (cases "q x \<and> key (xs ! i) < key x")
      case True
      then have r: "foldl step init (xs @ [x]) = upd x" by (simp add: step i(3) upd)
      have a: "\<forall>j<length (xs @ [x]). q ((xs @ [x]) ! j) \<longrightarrow> key ((xs @ [x]) ! j) \<le> key x"
      proof (intro allI impI)
        fix j assume j: "j < length (xs @ [x])" and qj: "q ((xs @ [x]) ! j)"
        show "key ((xs @ [x]) ! j) \<le> key x"
        proof (cases "j < length xs")
          case True
          with qj have "q (xs ! j)" by (simp add: nth_append)
          with mx True have "key (xs ! j) \<le> key (xs ! i)" by blast
          moreover from \<open>q x \<and> key (xs ! i) < key x\<close> have "key (xs ! i) < key x" by simp
          ultimately have "key (xs ! j) < key x" by (rule le_less_trans)
          with True show ?thesis by (simp add: nth_append)
        next
          case False
          with j have "j = length xs" by simp
          then show ?thesis by simp
        qed
      qed
      have b: "\<forall>j<length xs. q ((xs @ [x]) ! j) \<longrightarrow> key ((xs @ [x]) ! j) < key x"
      proof (intro allI impI)
        fix j assume j: "j < length xs" and qj: "q ((xs @ [x]) ! j)"
        then have "q (xs ! j)" by (simp add: nth_append)
        with mx j have "key (xs ! j) \<le> key (xs ! i)" by blast
        moreover from \<open>q x \<and> key (xs ! i) < key x\<close> have "key (xs ! i) < key x" by simp
        ultimately have "key (xs ! j) < key x" by (rule le_less_trans)
        with j show "key ((xs @ [x]) ! j) < key x"
          by (simp add: nth_append)
      qed
      have "length xs < length (xs @ [x]) \<and> q ((xs @ [x]) ! length xs) \<and>
            foldl step init (xs @ [x]) = upd ((xs @ [x]) ! length xs) \<and>
            (\<forall>j<length (xs @ [x]). q ((xs @ [x]) ! j) \<longrightarrow>
               key ((xs @ [x]) ! j) \<le> key ((xs @ [x]) ! length xs)) \<and>
            (\<forall>j<length xs. q ((xs @ [x]) ! j) \<longrightarrow>
               key ((xs @ [x]) ! j) < key ((xs @ [x]) ! length xs))"
        using True r a b by simp
      then have "\<exists>i<length (xs @ [x]). q ((xs @ [x]) ! i) \<and>
            foldl step init (xs @ [x]) = upd ((xs @ [x]) ! i) \<and>
            (\<forall>j<length (xs @ [x]). q ((xs @ [x]) ! j) \<longrightarrow>
               key ((xs @ [x]) ! j) \<le> key ((xs @ [x]) ! i)) \<and>
            (\<forall>j<i. q ((xs @ [x]) ! j) \<longrightarrow> key ((xs @ [x]) ! j) < key ((xs @ [x]) ! i))"
        by blast
      with ex show ?thesis by (simp only: if_True)
    next
      case False
      then have r: "foldl step init (xs @ [x]) = upd (xs ! i)" by (auto simp: step i(3) upd)
      have xi: "(xs @ [x]) ! i = xs ! i" using i(1) by (simp add: nth_append)
      have a: "\<forall>j<length (xs @ [x]). q ((xs @ [x]) ! j) \<longrightarrow> key ((xs @ [x]) ! j) \<le> key (xs ! i)"
      proof (intro allI impI)
        fix j assume j: "j < length (xs @ [x])" and qj: "q ((xs @ [x]) ! j)"
        show "key ((xs @ [x]) ! j) \<le> key (xs ! i)"
        proof (cases "j < length xs")
          case True
          with qj have "q (xs ! j)" by (simp add: nth_append)
          with mx True show ?thesis by (simp add: nth_append)
        next
          case False
          with j have jl: "j = length xs" by simp
          with qj have "q x" by simp
          with False \<open>\<not> (q x \<and> key (xs ! i) < key x)\<close> have "key x \<le> key (xs ! i)" by simp
          with jl show ?thesis by simp
        qed
      qed
      have b: "\<forall>j<i. q ((xs @ [x]) ! j) \<longrightarrow> key ((xs @ [x]) ! j) < key (xs ! i)"
        using fst i(1) by (simp add: nth_append)
      have "i < length (xs @ [x]) \<and> q ((xs @ [x]) ! i) \<and>
            foldl step init (xs @ [x]) = upd ((xs @ [x]) ! i) \<and>
            (\<forall>j<length (xs @ [x]). q ((xs @ [x]) ! j) \<longrightarrow>
               key ((xs @ [x]) ! j) \<le> key ((xs @ [x]) ! i)) \<and>
            (\<forall>j<i. q ((xs @ [x]) ! j) \<longrightarrow> key ((xs @ [x]) ! j) < key ((xs @ [x]) ! i))"
        using i r a b xi by simp
      then have "\<exists>i<length (xs @ [x]). q ((xs @ [x]) ! i) \<and>
            foldl step init (xs @ [x]) = upd ((xs @ [x]) ! i) \<and>
            (\<forall>j<length (xs @ [x]). q ((xs @ [x]) ! j) \<longrightarrow>
               key ((xs @ [x]) ! j) \<le> key ((xs @ [x]) ! i)) \<and>
            (\<forall>j<i. q ((xs @ [x]) ! j) \<longrightarrow> key ((xs @ [x]) ! j) < key ((xs @ [x]) ! i))"
        by blast
      with ex show ?thesis by (simp only: if_True)
    qed
  next
    case False
    with IH have r0: "foldl step init xs = init" by simp
    from False have nq: "\<forall>j<length xs. \<not> q (xs ! j)" by auto
    show ?thesis
    proof (cases "q x")
      case True
      with lowx have "getk init < key x" by simp
      with True have r: "foldl step init (xs @ [x]) = upd x" by (simp add: step r0)
      have ex: "\<exists>y \<in> set (xs @ [x]). q y" using True by simp
      have "length xs < length (xs @ [x]) \<and> q ((xs @ [x]) ! length xs) \<and>
            foldl step init (xs @ [x]) = upd ((xs @ [x]) ! length xs) \<and>
            (\<forall>j<length (xs @ [x]). q ((xs @ [x]) ! j) \<longrightarrow>
               key ((xs @ [x]) ! j) \<le> key ((xs @ [x]) ! length xs)) \<and>
            (\<forall>j<length xs. q ((xs @ [x]) ! j) \<longrightarrow>
               key ((xs @ [x]) ! j) < key ((xs @ [x]) ! length xs))"
        using True r nq by (auto simp: nth_append less_Suc_eq)
      then have "\<exists>i<length (xs @ [x]). q ((xs @ [x]) ! i) \<and>
            foldl step init (xs @ [x]) = upd ((xs @ [x]) ! i) \<and>
            (\<forall>j<length (xs @ [x]). q ((xs @ [x]) ! j) \<longrightarrow>
               key ((xs @ [x]) ! j) \<le> key ((xs @ [x]) ! i)) \<and>
            (\<forall>j<i. q ((xs @ [x]) ! j) \<longrightarrow> key ((xs @ [x]) ! j) < key ((xs @ [x]) ! i))"
        by blast
      with ex show ?thesis by (simp only: if_True)
    next
      case nqx: False
      then have "foldl step init (xs @ [x]) = init" by (simp add: step r0)
      moreover from False nqx have "\<not> (\<exists>y \<in> set (xs @ [x]). q y)" by simp
      ultimately show ?thesis by (simp only: if_False)
    qed
  qed
qed

lemma firstBest_unique: "firstBest lt xs i \<Longrightarrow> firstBest lt xs j \<Longrightarrow> i = j"
proof (rule ccontr)
  assume i: "firstBest lt xs i" and j: "firstBest lt xs j" and ne: "i \<noteq> j"
  show False
  proof (cases "i < j")
    case True
    with j have "lt (xs ! i) (xs ! j)" by (simp add: firstBest_def)
    moreover from i j have "\<not> lt (xs ! i) (xs ! j)" by (simp add: firstBest_def)
    ultimately show False by simp
  next
    case False
    with ne have "j < i" by simp
    with i have "lt (xs ! j) (xs ! i)" by (simp add: firstBest_def)
    moreover from i j have "\<not> lt (xs ! j) (xs ! i)" by (simp add: firstBest_def)
    ultimately show False by simp
  qed
qed

lemma firstBest_list:
  "firstBest lt xs i \<longleftrightarrow>
     i < length xs \<and> list_all (\<lambda>x. \<not> lt (xs ! i) x) xs \<and> list_all (\<lambda>x. lt x (xs ! i)) (take i xs)"
proof -
  have a: "(\<forall>j<length xs. \<not> lt (xs ! i) (xs ! j)) \<longleftrightarrow> list_all (\<lambda>x. \<not> lt (xs ! i) x) xs"
    by (simp add: list_all_length)
  have b: "i < length xs \<Longrightarrow> (\<forall>j<i. lt (xs ! j) (xs ! i)) \<longleftrightarrow> list_all (\<lambda>x. lt x (xs ! i)) (take i xs)"
    by (simp add: list_all_length)
  show ?thesis unfolding firstBest_def using a b by blast
qed

lemma firstBest_by_key:
  assumes "\<And>a b. lt a b \<longleftrightarrow> key a < key b"
  shows "firstBest lt xs i \<longleftrightarrow> firstBest (<) (map key xs) i"
  by (auto simp: firstBest_def assms)

lemma case_sum_option_ex:
  "(case x of Inr (Some s) \<Rightarrow> P s | _ \<Rightarrow> False) \<Longrightarrow> \<exists>s. x = Inr (Some s) \<and> P s"
  by (auto split: sum.splits option.splits)

lemma case_sum_ex: "(case x of Inr st \<Rightarrow> P st | _ \<Rightarrow> False) \<Longrightarrow> \<exists>st. x = Inr st \<and> P st"
  by (auto split: sum.splits)

section \<open>Deck canonicalization\<close>

lemma uniqueCardsMap_inv:
  "distinct (map fst m) \<Longrightarrow> (\<forall>p \<in> set m. name (snd p) = fst p) \<Longrightarrow>
   distinct (map fst (foldl (\<lambda>m c. objSet m (name c) c) m cs)) \<and>
   (\<forall>p \<in> set (foldl (\<lambda>m c. objSet m (name c) c) m cs). name (snd p) = fst p) \<and>
   set (map fst (foldl (\<lambda>m c. objSet m (name c) c) m cs)) = set (map fst m) \<union> name ` set cs"
proof (induction cs arbitrary: m)
  case Nil
  then show ?case by simp
next
  case (Cons c cs)
  have d: "distinct (map fst (objSet m (name c) c))"
    using Cons.prems(1) by (simp add: map_fst_objSet)
  have n: "\<forall>p \<in> set (objSet m (name c) c). name (snd p) = fst p"
    using Cons.prems(2) by (auto dest: set_objSet)
  have s: "set (map fst (objSet m (name c) c)) = insert (name c) (set (map fst m))"
    by (auto simp: map_fst_objSet)
  from Cons.IH[OF d n] s show ?case by auto
qed

lemma map_name_snd_fst:
  "\<forall>p \<in> set m. name (snd p) = fst p \<Longrightarrow> map name (map snd m) = map fst m"
  by (induction m) auto

lemma uniqueNames_fst: "uniqueNames cs = map fst (uniqueCardsMap cs)"
  unfolding uniqueNames_def
  using uniqueCardsMap_inv[of "[]" cs]
  by (intro map_name_snd_fst) (simp add: uniqueCardsMap_def)

lemma distinct_uniqueNames: "distinct (uniqueNames cs)"
  using uniqueCardsMap_inv[of "[]" cs] by (simp add: uniqueNames_fst uniqueCardsMap_def)

lemma set_uniqueNames: "set (uniqueNames cs) = name ` set cs"
  using uniqueCardsMap_inv[of "[]" cs] by (simp add: uniqueNames_fst uniqueCardsMap_def)

lemma names_sortedCards:
  "map name (sortedCards lc cs) = take 8 (sortBy lc (uniqueNames cs))"
proof -
  let ?u = "map snd (uniqueCardsMap cs)"
  let ?s = "sortBy (\<lambda>a b. lc (name a) (name b)) ?u"
  have m: "map name ?s = sortBy lc (uniqueNames cs)"
    unfolding uniqueNames_def by (rule map_sortBy)
  have "map name (sortedCards lc cs) = map name (take 8 ?s)"
    by (simp only: sortedCards_def Let_def) simp
  also have "\<dots> = take 8 (map name ?s)" by (simp only: take_map)
  finally show ?thesis using m by simp
qed

lemma tiedCards_names:
  "map name (sortedCards collateCompare tiedCards) =
     [nameA1, ''A'', ''B'', ''C'', ''D'', ''E'', ''F'', ''G'']"
  by code_simp

lemma tiedCards_key:
  "deckKey (sortedCards collateCompare tiedCards) = nameA1 @ '',A,B,C,D,E,F,G''"
  by code_simp

lemma tiedCards_many: "card (name ` set tiedCards) > 8"
  by code_simp

text \<open>
  A battle with a resolved self side, an opponent and a non-empty canonical deck is counted
  in the bucket whose key is the DeckKey of its canonical deck.
\<close>

lemma bumpDeck_has_key: "\<exists>e. objGet (bumpDeck isWin dc dKey vKey processed) dKey = Some e"
  by (simp add: bumpDeck_def Let_def objGet_objSet)

lemma countBattle_deck_bucket:
  assumes "playerTeamOf playerTag battle = Some playerTeam" and "opponent battle \<noteq> []"
      and "cards playerTeam = Some cs" and "sortedCards lc cs \<noteq> []"
  shows "\<exists>st' e. countBattle lc playerTag st battle = Inr st' \<and>
                objGet (deckCounts st') (deckKey (sortedCards lc cs)) = Some e"
proof -
  from assms(2) obtain opp rest where o: "opponent battle = opp # rest"
    by (cases "opponent battle") auto
  let ?w = "orZero (crowns opp) < orZero (crowns playerTeam)"
  let ?st' = "\<lparr>cardCounts = foldl (bumpCard ?w) (cardCounts st) cs,
               deckCounts = bumpDeck ?w (deckCounts st) (deckKey (sortedCards lc cs))
                              (variantKey (sortedCards lc cs))
                              (map processedCard (sortedCards lc cs))\<rparr>"
  from assms(1,3,4) o have "countBattle lc playerTag st battle = Inr ?st'"
    by (simp add: countBattle_def Let_def)
  moreover from bumpDeck_has_key
  have "\<exists>e. objGet (deckCounts ?st') (deckKey (sortedCards lc cs)) = Some e" by simp
  ultimately show ?thesis by blast
qed

text \<open>
  Claim C1. When the self side reports more than 8 distinct card names, canonicalization
  removes duplicate names, orders the names ascending and keeps exactly the first 8 of that
  order: for every consistent comparator there is a duplicate-free ascending list \<open>ns\<close> of
  all reported names such that the canonical deck's names are the first 8 elements of \<open>ns\<close>
  and the DeckKey is their comma join.
\<close>

theorem deckKey_truncates:
  assumes con: "consistentCompare lc" and many: "card (name ` set cs) > 8"
  shows "\<exists>ns. distinct ns \<and> set ns = name ` set cs \<and> ascending lc ns \<and>
              length (take 8 ns) = 8 \<and>
              map name (sortedCards lc cs) = take 8 ns \<and>
              deckKey (sortedCards lc cs) = join '','' (take 8 ns)"
proof -
  let ?ns = "sortBy lc (uniqueNames cs)"
  have d: "distinct ?ns" by (simp add: distinct_sortBy distinct_uniqueNames)
  have s: "set ?ns = name ` set cs" by (simp add: set_sortBy set_uniqueNames)
  have a: "ascending lc ?ns" using con by (rule ascending_sortBy)
  from d s have "length ?ns = card (name ` set cs)" by (metis distinct_card)
  with many have l: "length (take 8 ?ns) = 8" by simp
  have k: "map name (sortedCards lc cs) = take 8 ?ns" by (rule names_sortedCards)
  then have "deckKey (sortedCards lc cs) = join '','' (take 8 ?ns)" by (simp add: deckKey_def)
  with d s a l k show ?thesis by blast
qed

theorem deckKey_truncates_witness:
  "card (name ` set tiedCards) > 8 \<and>
   collateCompare nameA1 ''A'' = 0 \<and> collateCompare ''A'' nameA1 = 0 \<and>
   deckKey (sortedCards collateCompare tiedCards) = nameA1 @ '',A,B,C,D,E,F,G'' \<and>
   (\<exists>ns. distinct ns \<and> set ns = name ` set tiedCards \<and> ascending collateCompare ns \<and>
              length (take 8 ns) = 8 \<and>
              map name (sortedCards collateCompare tiedCards) = take 8 ns \<and>
              deckKey (sortedCards collateCompare tiedCards) = join '','' (take 8 ns))"
proof -
  note t = deckKey_truncates[OF consistentCompare_collateCompare tiedCards_many]
  from collateCompare_ties have c1: "collateCompare nameA1 ''A'' = 0"
    and c2: "collateCompare ''A'' nameA1 = 0"
    by (rule conjunct1, rule conjunct2[THEN conjunct1])
  from tiedCards_many c1 c2 tiedCards_key t show ?thesis by (intro conjI)
qed

text \<open>
  Where the comparator separates the reported names (no two different names compare equal),
  the DeckKey does not depend on the order of the card array.
\<close>

lemma deckKey_permutation_separated:
  assumes con: "consistentCompare lc" and perm: "mset cs' = mset cs"
      and sep: "\<forall>a \<in> name ` set cs. \<forall>b \<in> name ` set cs. lc a b \<le> 0 \<longrightarrow> lc b a \<le> 0 \<longrightarrow> a = b"
  shows "deckKey (sortedCards lc cs') = deckKey (sortedCards lc cs)"
proof -
  from perm have "set cs' = set cs" by (rule mset_eq_setD)
  then have s: "set (sortBy lc (uniqueNames cs')) = set (sortBy lc (uniqueNames cs))"
    by (simp add: set_sortBy set_uniqueNames)
  have s': "set (sortBy lc (uniqueNames cs')) = name ` set cs'"
    by (simp add: set_sortBy set_uniqueNames)
  from sep \<open>set cs' = set cs\<close> s'
  have sep': "\<forall>a \<in> set (sortBy lc (uniqueNames cs')).
               \<forall>b \<in> set (sortBy lc (uniqueNames cs')). lc a b \<le> 0 \<longrightarrow> lc b a \<le> 0 \<longrightarrow> a = b"
    by simp
  have "sortBy lc (uniqueNames cs') = sortBy lc (uniqueNames cs)"
    using ascending_sortBy[OF con] ascending_sortBy[OF con] _ _ s sep'
    by (rule ascending_unique) (simp_all add: distinct_sortBy distinct_uniqueNames)
  then show ?thesis by (simp add: deckKey_def names_sortedCards)
qed

text \<open>
  The key of an opponent's deck in \<open>PlayerMatchupStats\<close> is built with the default
  \<^verbatim>\<open>sort()\<close>, which orders by code unit and ties no two different names: that key is the
  same for every permutation of the card array, also for the two names that the collation
  ties.
\<close>

lemma opponentDeckKey_permutation_invariant:
  assumes "mset cs' = mset cs"
  shows "opponentDeckKey cs' = opponentDeckKey cs"
proof -
  from assms have "mset (map name cs') = mset (map name cs)" by simp
  then have "mset (sortBy codeUnitCompare (map name cs')) =
             mset (sortBy codeUnitCompare (map name cs))"
    by (simp only: mset_sortBy)
  moreover have "ascending codeUnitCompare (sortBy codeUnitCompare (map name cs'))"
    "ascending codeUnitCompare (sortBy codeUnitCompare (map name cs))"
    using consistentCompare_codeUnitCompare by (rule ascending_sortBy)+
  ultimately have
    "sortBy codeUnitCompare (map name cs') = sortBy codeUnitCompare (map name cs)"
    using ascending_unique_mset[of codeUnitCompare, OF codeUnitCompare_antisym] by blast
  then show ?thesis by (simp only: opponentDeckKey_def)
qed

lemma opponentDeckKey_tied:
  "opponentDeckKey [plainCard nameA1, plainCard ''A''] = ''A,'' @ nameA1 \<and>
   opponentDeckKey [plainCard ''A'', plainCard nameA1] = ''A,'' @ nameA1"
  by code_simp

text \<open>
  Claim C2. The claim is that the DeckKey is the same for every permutation of the self
  side's card array. The sort is stable and its only key is the comparator, so two different
  names that the comparator ties stay in the order of the array: the two orders of such a pair
  of cards give two different canonical name lists and two different keys.
\<close>

theorem deckKey_order_dependent_on_ties:
  assumes tie: "lc (name ca) (name cb) \<le> 0" "lc (name cb) (name ca) \<le> 0"
      and ne: "name ca \<noteq> name cb"
  shows "mset [cb, ca] = mset [ca, cb] \<and>
         map name (sortedCards lc [ca, cb]) = [name ca, name cb] \<and>
         map name (sortedCards lc [cb, ca]) = [name cb, name ca] \<and>
         deckKey (sortedCards lc [ca, cb]) = name ca @ '','' @ name cb \<and>
         deckKey (sortedCards lc [cb, ca]) = name cb @ '','' @ name ca"
proof -
  have u1: "map snd (uniqueCardsMap [ca, cb]) = [ca, cb]" using ne
    by (simp add: uniqueCardsMap_def)
  have u2: "map snd (uniqueCardsMap [cb, ca]) = [cb, ca]" using ne
    by (auto simp: uniqueCardsMap_def)
  have s1: "sortedCards lc [ca, cb] = [ca, cb]"
    using tie(1) by (simp add: sortedCards_def u1 sortBy_def)
  have s2: "sortedCards lc [cb, ca] = [cb, ca]"
    using tie(2) by (simp add: sortedCards_def u2 sortBy_def)
  show ?thesis by (simp add: s1 s2 deckKey_def)
qed

theorem deckKey_order_dependent_on_ties_witness:
  "collateCompare nameA1 ''A'' \<le> 0 \<and> collateCompare ''A'' nameA1 \<le> 0 \<and> nameA1 \<noteq> ''A'' \<and>
   mset [plainCard ''A'', plainCard nameA1] = mset [plainCard nameA1, plainCard ''A''] \<and>
   deckKey (sortedCards collateCompare [plainCard nameA1, plainCard ''A'']) = nameA1 @ '',A'' \<and>
   deckKey (sortedCards collateCompare [plainCard ''A'', plainCard nameA1]) = ''A,'' @ nameA1 \<and>
   deckKey (sortedCards collateCompare [plainCard nameA1, plainCard ''A'']) \<noteq>
   deckKey (sortedCards collateCompare [plainCard ''A'', plainCard nameA1])"
proof -
  from collateCompare_ties have t1: "collateCompare nameA1 ''A'' \<le> 0"
    and t2: "collateCompare ''A'' nameA1 \<le> 0" and ne: "nameA1 \<noteq> ''A''"
    by simp_all
  have n1: "name (plainCard nameA1) = nameA1" and n2: "name (plainCard ''A'') = ''A''"
    by (simp_all add: plainCard_def)
  note h = deckKey_order_dependent_on_ties[of collateCompare "plainCard nameA1" "plainCard ''A''",
      unfolded n1 n2, OF t1 t2 ne]
  from h have m: "mset [plainCard ''A'', plainCard nameA1] = mset [plainCard nameA1, plainCard ''A'']"
    by (rule conjunct1)
  from h have k1: "deckKey (sortedCards collateCompare [plainCard nameA1, plainCard ''A'']) =
      nameA1 @ '','' @ ''A''"
    by (rule conjunct2[THEN conjunct2, THEN conjunct2, THEN conjunct1])
  from h have k2: "deckKey (sortedCards collateCompare [plainCard ''A'', plainCard nameA1]) =
      ''A'' @ '','' @ nameA1"
    by (rule conjunct2[THEN conjunct2, THEN conjunct2, THEN conjunct2])
  from k1 have k1': "deckKey (sortedCards collateCompare [plainCard nameA1, plainCard ''A'']) =
      nameA1 @ '',A''" by simp
  from k2 have k2': "deckKey (sortedCards collateCompare [plainCard ''A'', plainCard nameA1]) =
      ''A,'' @ nameA1" by simp
  have d: "deckKey (sortedCards collateCompare [plainCard nameA1, plainCard ''A'']) \<noteq>
      deckKey (sortedCards collateCompare [plainCard ''A'', plainCard nameA1])"
    unfolding k1' k2' by (simp add: nameA1_def)
  from t1 t2 ne m k1' k2' d show ?thesis by (intro conjI)
qed

section \<open>Archetype classification\<close>

lemma objectEntries_WIN_CONDITIONS: "objectEntries WIN_CONDITIONS = WIN_CONDITIONS"
  by (simp add: objectEntries_def WIN_CONDITIONS_def isArrayIndex_def isDigit_def)

lemma arrayIncludes_iff: "arrayIncludes xs v \<longleftrightarrow> v \<in> set xs"
  by (induction xs) auto

lemma arraySome_iff: "arraySome p xs \<longleftrightarrow> (\<exists>x \<in> set xs. p x)"
  by (induction xs) auto

lemma firstArchetype_first:
  "i < length tbl \<Longrightarrow> triggers (tbl ! i) ns \<Longrightarrow> (\<forall>j<i. \<not> triggers (tbl ! j) ns)
   \<Longrightarrow> firstArchetype tbl ns = fst (tbl ! i)"
proof (induction tbl arbitrary: i)
  case Nil
  then show ?case by simp
next
  case (Cons e tbl)
  obtain a conds where e: "e = (a, conds)" by (cases e)
  show ?case
  proof (cases i)
    case 0
    with Cons.prems e show ?thesis
      by (auto simp: triggers_def arraySome_iff arrayIncludes_iff)
  next
    case (Suc k)
    with Cons.prems have k: "k < length tbl" "triggers (tbl ! k) ns"
      "\<forall>j<k. \<not> triggers (tbl ! j) ns" and h: "\<not> triggers e ns"
      by auto
    from h e have "\<not> arraySome (\<lambda>wc. arrayIncludes ns wc) conds"
      by (auto simp: triggers_def arraySome_iff arrayIncludes_iff)
    with Cons.IH[OF k] e Suc show ?thesis by simp
  qed
qed

lemma firstArchetype_none:
  "(\<forall>j<length tbl. \<not> triggers (tbl ! j) ns) \<Longrightarrow> firstArchetype tbl ns = ''Unknown''"
proof (induction tbl)
  case Nil
  then show ?case by simp
next
  case (Cons e tbl)
  obtain a conds where e: "e = (a, conds)" by (cases e)
  from Cons.prems have h: "\<not> triggers e ns" and r: "\<forall>j<length tbl. \<not> triggers (tbl ! j) ns"
    by auto
  from h e have "\<not> arraySome (\<lambda>wc. arrayIncludes ns wc) conds"
    by (auto simp: triggers_def arraySome_iff arrayIncludes_iff)
  with Cons.IH[OF r] e show ?case by simp
qed

lemma distinct_labels: "distinct (map fst WIN_CONDITIONS)"
  by (simp add: WIN_CONDITIONS_def)

lemma firstArchetype_least:
  assumes "i < length tbl" "triggers (tbl ! i) ns"
  shows "\<exists>k\<le>i. triggers (tbl ! k) ns \<and> (\<forall>m<k. \<not> triggers (tbl ! m) ns) \<and>
               firstArchetype tbl ns = fst (tbl ! k)"
proof -
  define k where "k = (LEAST m. triggers (tbl ! m) ns)"
  have tk: "triggers (tbl ! k) ns" unfolding k_def using assms(2) by (rule LeastI)
  have ki: "k \<le> i" unfolding k_def using assms(2) by (rule Least_le)
  have mk: "\<forall>m<k. \<not> triggers (tbl ! m) ns" unfolding k_def using not_less_Least by blast
  from ki assms(1) have "k < length tbl" by simp
  from firstArchetype_first[OF this tk mk] tk ki mk show ?thesis by blast
qed

lemma WIN_CONDITIONS_labels:
  "fst (WIN_CONDITIONS ! 0) = ''Beatdown''" "fst (WIN_CONDITIONS ! 3) = ''Cycle''"
  "length WIN_CONDITIONS = 7"
  by (simp_all add: WIN_CONDITIONS_def)

lemma hog_golem_eval:
  "triggers (WIN_CONDITIONS ! 0) (map name [plainCard ''Hog Rider'', plainCard ''Golem'']) \<and>
   triggers (WIN_CONDITIONS ! 3) (map name [plainCard ''Hog Rider'', plainCard ''Golem''])"
  by code_simp

lemma hog_eval:
  "triggers (WIN_CONDITIONS ! 3) (map name [plainCard ''Hog Rider'']) \<and>
   list_all (\<lambda>j. \<not> triggers (WIN_CONDITIONS ! j) (map name [plainCard ''Hog Rider''])) [0..<3]"
  by code_simp

lemma knight_eval:
  "list_all (\<lambda>j. \<not> triggers (WIN_CONDITIONS ! j) (map name [plainCard ''Knight'']))
     [0..<length WIN_CONDITIONS]"
  by code_simp

text \<open>
  Claim C3. \<open>getArchetype\<close> returns the label of the first table entry whose trigger set
  shares a name with the cards, and \<open>Unknown\<close> when no entry does; when the triggers of two
  entries are present, the later entry's label is never returned and the result is the label
  of an entry at or before the earlier one.
\<close>

theorem getArchetype_first_trigger:
  "(\<forall>i<length WIN_CONDITIONS.
       triggers (WIN_CONDITIONS ! i) (map name cs) \<longrightarrow>
       (\<forall>j<i. \<not> triggers (WIN_CONDITIONS ! j) (map name cs)) \<longrightarrow>
       getArchetype cs = fst (WIN_CONDITIONS ! i)) \<and>
   ((\<forall>i<length WIN_CONDITIONS. \<not> triggers (WIN_CONDITIONS ! i) (map name cs)) \<longrightarrow>
       getArchetype cs = ''Unknown'') \<and>
   (\<forall>i j. i < j \<longrightarrow> j < length WIN_CONDITIONS \<longrightarrow>
       triggers (WIN_CONDITIONS ! i) (map name cs) \<longrightarrow>
       triggers (WIN_CONDITIONS ! j) (map name cs) \<longrightarrow>
       getArchetype cs \<noteq> fst (WIN_CONDITIONS ! j) \<and>
       (\<exists>k\<le>i. getArchetype cs = fst (WIN_CONDITIONS ! k)))"
proof (intro conjI allI impI)
  fix i
  assume "i < length WIN_CONDITIONS" "triggers (WIN_CONDITIONS ! i) (map name cs)"
    "\<forall>j<i. \<not> triggers (WIN_CONDITIONS ! j) (map name cs)"
  then show "getArchetype cs = fst (WIN_CONDITIONS ! i)"
    by (simp add: getArchetype_def objectEntries_WIN_CONDITIONS firstArchetype_first)
next
  assume "\<forall>i<length WIN_CONDITIONS. \<not> triggers (WIN_CONDITIONS ! i) (map name cs)"
  then show "getArchetype cs = ''Unknown''"
    by (simp add: getArchetype_def objectEntries_WIN_CONDITIONS firstArchetype_none)
next
  fix i j :: nat
  assume ij: "i < j" and j: "j < length WIN_CONDITIONS"
    and ti: "triggers (WIN_CONDITIONS ! i) (map name cs)"
  from ij j have "i < length WIN_CONDITIONS" by simp
  from firstArchetype_least[OF this ti] obtain k where
    k: "k \<le> i" "firstArchetype WIN_CONDITIONS (map name cs) = fst (WIN_CONDITIONS ! k)"
    by blast
  then have g: "getArchetype cs = fst (WIN_CONDITIONS ! k)"
    by (simp add: getArchetype_def objectEntries_WIN_CONDITIONS)
  from k ij j have "k < length WIN_CONDITIONS" "k \<noteq> j" by simp_all
  with distinct_labels j have ne: "fst (WIN_CONDITIONS ! k) \<noteq> fst (WIN_CONDITIONS ! j)"
    by (metis distinct_conv_nth length_map nth_map)
  from g ne show "getArchetype cs \<noteq> fst (WIN_CONDITIONS ! j)" by simp
  from g k(1) show "\<exists>k\<le>i. getArchetype cs = fst (WIN_CONDITIONS ! k)" by blast
qed

theorem getArchetype_first_trigger_witness:
  "triggers (WIN_CONDITIONS ! 0) (map name [plainCard ''Hog Rider'', plainCard ''Golem'']) \<and>
   triggers (WIN_CONDITIONS ! 3) (map name [plainCard ''Hog Rider'', plainCard ''Golem'']) \<and>
   getArchetype [plainCard ''Hog Rider'', plainCard ''Golem''] = ''Beatdown'' \<and>
   getArchetype [plainCard ''Hog Rider'', plainCard ''Golem''] \<noteq> ''Cycle'' \<and>
   triggers (WIN_CONDITIONS ! 3) (map name [plainCard ''Hog Rider'']) \<and>
   getArchetype [plainCard ''Hog Rider''] = ''Cycle'' \<and>
   getArchetype [plainCard ''Knight''] = ''Unknown''"
proof -
  let ?cs = "[plainCard ''Hog Rider'', plainCard ''Golem'']"
  from hog_golem_eval have t0: "triggers (WIN_CONDITIONS ! 0) (map name ?cs)"
    and t3: "triggers (WIN_CONDITIONS ! 3) (map name ?cs)"
    by (rule conjunct1, rule conjunct2)
  note two = getArchetype_first_trigger[of ?cs, THEN conjunct2, THEN conjunct2,
      THEN spec, THEN spec, of 0 3]
  have "(0::nat) < 3" "3 < length WIN_CONDITIONS" by (simp_all add: WIN_CONDITIONS_labels(3))
  with two t0 t3 have "getArchetype ?cs \<noteq> fst (WIN_CONDITIONS ! 3) \<and>
       (\<exists>k\<le>0. getArchetype ?cs = fst (WIN_CONDITIONS ! k))"
    by (elim impE)
  then have a: "getArchetype ?cs \<noteq> fst (WIN_CONDITIONS ! 3)"
    and b: "\<exists>k\<le>0. getArchetype ?cs = fst (WIN_CONDITIONS ! k)"
    by (rule conjunct1, rule conjunct2)
  from a have cyc: "getArchetype ?cs \<noteq> ''Cycle''" unfolding WIN_CONDITIONS_labels(2) .
  from b have bd: "getArchetype ?cs = ''Beatdown''" by (simp add: WIN_CONDITIONS_labels)
  from hog_eval have h3: "triggers (WIN_CONDITIONS ! 3) (map name [plainCard ''Hog Rider''])"
    and hn: "\<forall>j<3. \<not> triggers (WIN_CONDITIONS ! j) (map name [plainCard ''Hog Rider''])"
    by (simp_all only: list_all_iff set_upt atLeastLessThan_iff) auto
  note one = getArchetype_first_trigger[of "[plainCard ''Hog Rider'']", THEN conjunct1,
      THEN spec, of 3]
  from one \<open>3 < length WIN_CONDITIONS\<close> h3 hn
  have "getArchetype [plainCard ''Hog Rider''] = fst (WIN_CONDITIONS ! 3)" by (elim impE)
  then have hog: "getArchetype [plainCard ''Hog Rider''] = ''Cycle''"
    by (simp only: WIN_CONDITIONS_labels)
  from knight_eval
  have kn: "\<forall>i<length WIN_CONDITIONS.
              \<not> triggers (WIN_CONDITIONS ! i) (map name [plainCard ''Knight''])"
    by (simp only: list_all_iff set_upt atLeastLessThan_iff) auto
  note none = getArchetype_first_trigger[of "[plainCard ''Knight'']", THEN conjunct2,
      THEN conjunct1]
  from none kn have unk: "getArchetype [plainCard ''Knight''] = ''Unknown''" by (elim impE)
  from t0 t3 bd cyc h3 hog unk show ?thesis by (intro conjI)
qed

section \<open>Invariants of the usage tables\<close>

lemma bumpCard_inv:
  assumes "\<forall>p \<in> set cc. bucketOk (cc_wins (snd p)) (cc_count (snd p))"
  shows "\<forall>p \<in> set (bumpCard isWin cc c). bucketOk (cc_wins (snd p)) (cc_count (snd p))"
proof -
  define f where "f = (\<lambda>e::CardCount. e\<lparr>cc_count := cc_count e + 1,
                              cc_wins := (if isWin then cc_wins e + 1 else cc_wins e)\<rparr>)"
  define d where "d = \<lparr>cc_count = 0, cc_wins = 0, cc_card = c\<rparr>"
  have eq: "bumpCard isWin cc c =
            objSet cc (name c) (f (case objGet cc (name c) of None \<Rightarrow> d | Some e \<Rightarrow> e))"
    unfolding bumpCard_def Let_def f_def d_def by (rule refl)
  have n: "bucketOk (cc_wins (f d)) (cc_count (f d))"
    by (simp add: f_def d_def bucketOk_def)
  have o: "bucketOk (cc_wins e) (cc_count e) \<Longrightarrow> bucketOk (cc_wins (f e)) (cc_count (f e))" for e
    by (simp add: f_def bucketOk_def)
  show ?thesis
    unfolding eq
    by (rule obj_bump_inv[of cc "\<lambda>e. bucketOk (cc_wins e) (cc_count e)" f d "name c"])
       (use assms n o in blast)+
qed

lemma bumpVariant_inv:
  assumes "\<forall>p \<in> set vs. bucketOk (vc_wins (snd p)) (vc_count (snd p))"
  shows "\<forall>p \<in> set (bumpVariant isWin vs k cs). bucketOk (vc_wins (snd p)) (vc_count (snd p))"
proof -
  define f where "f = (\<lambda>e::VariantCount. e\<lparr>vc_count := vc_count e + 1,
                              vc_wins := (if isWin then vc_wins e + 1 else vc_wins e)\<rparr>)"
  define d where "d = \<lparr>vc_count = 0, vc_wins = 0, vc_cards = cs\<rparr>"
  have eq: "bumpVariant isWin vs k cs =
            objSet vs k (f (case objGet vs k of None \<Rightarrow> d | Some e \<Rightarrow> e))"
    unfolding bumpVariant_def Let_def f_def d_def by (rule refl)
  have n: "bucketOk (vc_wins (f d)) (vc_count (f d))"
    by (simp add: f_def d_def bucketOk_def)
  have o: "bucketOk (vc_wins e) (vc_count e) \<Longrightarrow> bucketOk (vc_wins (f e)) (vc_count (f e))" for e
    by (simp add: f_def bucketOk_def)
  show ?thesis
    unfolding eq
    by (rule obj_bump_inv[of vs "\<lambda>e. bucketOk (vc_wins e) (vc_count e)" f d k])
       (use assms n o in blast)+
qed

lemma bumpVariant_nonempty: "bumpVariant isWin vs k cs \<noteq> []"
  unfolding bumpVariant_def Let_def by (rule objSet_nonempty)

lemma bumpDeck_inv:
  assumes "\<forall>p \<in> set dc. deckOk (snd p)"
  shows "\<forall>p \<in> set (bumpDeck isWin dc dk vk cs). deckOk (snd p)"
proof -
  define f where "f = (\<lambda>e::DeckCount. e\<lparr>dc_count := dc_count e + 1,
                              dc_wins := (if isWin then dc_wins e + 1 else dc_wins e),
                              dc_variants := bumpVariant isWin (dc_variants e) vk cs\<rparr>)"
  define d where "d = \<lparr>dc_count = 0, dc_wins = 0, dc_variants = []\<rparr>"
  have eq: "bumpDeck isWin dc dk vk cs =
            objSet dc dk (f (case objGet dc dk of None \<Rightarrow> d | Some e \<Rightarrow> e))"
    unfolding bumpDeck_def Let_def f_def d_def by (rule refl)
  have fv: "dc_variants (f e) = bumpVariant isWin (dc_variants e) vk cs"
    and fc: "dc_count (f e) = dc_count e + 1"
    and fw: "dc_wins (f e) = (if isWin then dc_wins e + 1 else dc_wins e)" for e
    by (simp_all add: f_def)
  have n: "deckOk (f d)"
    unfolding deckOk_def fv fc fw
    using bumpVariant_inv[of "[]" isWin vk cs]
    by (simp add: d_def bucketOk_def bumpVariant_nonempty)
  have o: "deckOk (f e)" if "deckOk e" for e
    unfolding deckOk_def fv fc fw
    using that bumpVariant_inv[of "dc_variants e" isWin vk cs]
    by (simp add: deckOk_def bucketOk_def bumpVariant_nonempty)
  show ?thesis
    unfolding eq
    by (rule obj_bump_inv[of dc deckOk f d dk]) (use assms n o in blast)+
qed

lemma usageInv_alt:
  "usageInv st \<longleftrightarrow>
     (\<forall>p \<in> set (cardCounts st). bucketOk (cc_wins (snd p)) (cc_count (snd p))) \<and>
     (\<forall>p \<in> set (deckCounts st). deckOk (snd p))"
  by (simp add: usageInv_def deckOk_def)

lemma countBattle_cases:
  assumes "countBattle lc playerTag st battle = Inr st'"
  shows "st' = st \<or>
         (\<exists>w cs. st' = st\<lparr>cardCounts := foldl (bumpCard w) (cardCounts st) cs\<rparr>) \<or>
         (\<exists>w cs dk vk pcs. st' = \<lparr>cardCounts = foldl (bumpCard w) (cardCounts st) cs,
                                   deckCounts = bumpDeck w (deckCounts st) dk vk pcs\<rparr>)"
proof (cases "playerTeamOf playerTag battle")
  case None
  with assms show ?thesis by (simp add: countBattle_def Let_def)
next
  case (Some pt)
  note pt = this
  show ?thesis
  proof (cases "opponent battle")
    case Nil
    with assms pt show ?thesis by (simp add: countBattle_def Let_def)
  next
    case (Cons opp rest)
    note opp = this
    show ?thesis
    proof (cases "cards pt")
      case None
      with assms pt opp show ?thesis by (simp add: countBattle_def Let_def)
    next
      case (Some cs)
      show ?thesis
      proof (cases "sortedCards lc cs = []")
        case True
        with assms pt opp Some
        have "st' = st\<lparr>cardCounts := foldl (bumpCard (orZero (crowns opp) < orZero (crowns pt)))
                                        (cardCounts st) cs\<rparr>"
          by (simp add: countBattle_def Let_def)
        then show ?thesis by blast
      next
        case False
        with assms pt opp Some
        have "st' = \<lparr>cardCounts = foldl (bumpCard (orZero (crowns opp) < orZero (crowns pt)))
                                     (cardCounts st) cs,
                     deckCounts = bumpDeck (orZero (crowns opp) < orZero (crowns pt))
                                    (deckCounts st) (deckKey (sortedCards lc cs))
                                    (variantKey (sortedCards lc cs))
                                    (map processedCard (sortedCards lc cs))\<rparr>"
          by (simp add: countBattle_def Let_def)
        then show ?thesis by blast
      qed
    qed
  qed
qed

lemma countBattle_inv:
  assumes "usageInv st" "countBattle lc playerTag st battle = Inr st'"
  shows "usageInv st'"
proof -
  from assms(1) have c: "\<forall>p \<in> set (cardCounts st). bucketOk (cc_wins (snd p)) (cc_count (snd p))"
    and d: "\<forall>p \<in> set (deckCounts st). deckOk (snd p)"
    by (simp_all add: usageInv_alt)
  have c': "\<forall>p \<in> set (foldl (bumpCard w) (cardCounts st) cs).
              bucketOk (cc_wins (snd p)) (cc_count (snd p))" for w cs
    using c by (rule foldl_inv) (rule bumpCard_inv)
  have d': "\<forall>p \<in> set (bumpDeck w (deckCounts st) dk vk pcs). deckOk (snd p)" for w dk vk pcs
    using d by (rule bumpDeck_inv)
  from countBattle_cases[OF assms(2)] show ?thesis
  proof (elim disjE exE)
    assume "st' = st"
    with assms(1) show ?thesis by simp
  next
    fix w cs assume "st' = st\<lparr>cardCounts := foldl (bumpCard w) (cardCounts st) cs\<rparr>"
    then show ?thesis using c'[of w cs] d by (simp add: usageInv_alt)
  next
    fix w cs dk vk pcs
    assume "st' = \<lparr>cardCounts = foldl (bumpCard w) (cardCounts st) cs,
                   deckCounts = bumpDeck w (deckCounts st) dk vk pcs\<rparr>"
    then show ?thesis using c'[of w cs] d'[of w dk vk pcs] by (simp add: usageInv_alt)
  qed
qed

lemma countBattles_inv:
  assumes "countBattles lc playerTag battles = Inr st"
  shows "usageInv st"
proof -
  have i: "usageInv \<lparr>cardCounts = [], deckCounts = []\<rparr>" by (simp add: usageInv_def)
  from assms have r: "forEachE (countBattle lc playerTag) \<lparr>cardCounts = [], deckCounts = []\<rparr>
                        (validBattles battles) = Inr st"
    by (simp add: countBattles_def)
  show ?thesis
    by (rule forEachE_inv[where P = usageInv, OF i _ r]) (rule countBattle_inv)
qed

lemma PlayerUsageStats_Some:
  assumes "PlayerUsageStats lc battles playerTag cardData = Inr (Some s)"
      and "countBattles lc playerTag battles = Inr st"
  shows "bestCard s = fst (selectBestCard (objectValues (cardCounts st)))"
    "bestCardWinRate s = fst (snd (selectBestCard (objectValues (cardCounts st))))"
    "bestCardCount s = snd (snd (selectBestCard (objectValues (cardCounts st))))"
    "mostUsedCard s = fst (selectMostUsedCard (objectValues (cardCounts st)))"
    "mostUsedCardCount s = snd (selectMostUsedCard (objectValues (cardCounts st)))"
    "mostUsedDeck s = fst (selectMostUsedDeck (deckCounts st))"
    "mostUsedDeckCount s = fst (snd (selectMostUsedDeck (deckCounts st)))"
    "mostUsedDeckWins s = snd (snd (selectMostUsedDeck (deckCounts st)))"
    "totalTowerBattles s = snd (foldl (towerBattle playerTag) ([], 0) battles)"
    "mostUsedTower s =
       fst (foldl towerStep (None, 0)
              (objectValues (fst (foldl (towerBattle playerTag) ([], 0) battles))))"
    "mostUsedTowerCount s =
       snd (foldl towerStep (None, 0)
              (objectValues (fst (foldl (towerBattle playerTag) ([], 0) battles))))"
proof -
  from assms have
    "s = \<lparr>bestCard = fst (selectBestCard (objectValues (cardCounts st))),
          bestCardWinRate = fst (snd (selectBestCard (objectValues (cardCounts st)))),
          bestCardCount = snd (snd (selectBestCard (objectValues (cardCounts st)))),
          mostUsedCard = fst (selectMostUsedCard (objectValues (cardCounts st))),
          mostUsedCardCount = snd (selectMostUsedCard (objectValues (cardCounts st))),
          mostUsedDeck = fst (selectMostUsedDeck (deckCounts st)),
          mostUsedDeckCount = fst (snd (selectMostUsedDeck (deckCounts st))),
          mostUsedDeckWins = snd (snd (selectMostUsedDeck (deckCounts st))),
          deckElixirAvg = deckElixirAvgOf cardData (fst (selectMostUsedDeck (deckCounts st))),
          mostUsedTower = fst (foldl towerStep (None, 0)
              (objectValues (fst (foldl (towerBattle playerTag) ([], 0) battles)))),
          mostUsedTowerCount = snd (foldl towerStep (None, 0)
              (objectValues (fst (foldl (towerBattle playerTag) ([], 0) battles)))),
          totalTowerBattles = snd (foldl (towerBattle playerTag) ([], 0) battles),
          totalBattles = int (length battles)\<rparr>"
    by (simp add: PlayerUsageStats_def Let_def split: if_splits)
  then show "bestCard s = fst (selectBestCard (objectValues (cardCounts st)))"
    "bestCardWinRate s = fst (snd (selectBestCard (objectValues (cardCounts st))))"
    "bestCardCount s = snd (snd (selectBestCard (objectValues (cardCounts st))))"
    "mostUsedCard s = fst (selectMostUsedCard (objectValues (cardCounts st)))"
    "mostUsedCardCount s = snd (selectMostUsedCard (objectValues (cardCounts st)))"
    "mostUsedDeck s = fst (selectMostUsedDeck (deckCounts st))"
    "mostUsedDeckCount s = fst (snd (selectMostUsedDeck (deckCounts st)))"
    "mostUsedDeckWins s = snd (snd (selectMostUsedDeck (deckCounts st)))"
    "totalTowerBattles s = snd (foldl (towerBattle playerTag) ([], 0) battles)"
    "mostUsedTower s =
       fst (foldl towerStep (None, 0)
              (objectValues (fst (foldl (towerBattle playerTag) ([], 0) battles))))"
    "mostUsedTowerCount s =
       snd (foldl towerStep (None, 0)
              (objectValues (fst (foldl (towerBattle playerTag) ([], 0) battles))))"
    by simp_all
qed

section \<open>Invariants of the matchup tables\<close>

lemma bumpCardStat_inv:
  assumes "\<forall>p \<in> set m. bucketOk (cs_wins (snd p)) (cs_faced (snd p))"
  shows "\<forall>p \<in> set (bumpCardStat isWin m c). bucketOk (cs_wins (snd p)) (cs_faced (snd p))"
proof -
  define f where "f = (\<lambda>e::CardStat. e\<lparr>cs_faced := cs_faced e + 1,
                              cs_wins := (if isWin then cs_wins e + 1 else cs_wins e)\<rparr>)"
  define d where "d = \<lparr>cs_faced = 0, cs_wins = 0, cs_card = c\<rparr>"
  have eq: "bumpCardStat isWin m c =
            objSet m (name c) (f (case objGet m (name c) of None \<Rightarrow> d | Some e \<Rightarrow> e))"
    unfolding bumpCardStat_def Let_def f_def d_def by (rule refl)
  have n: "bucketOk (cs_wins (f d)) (cs_faced (f d))"
    by (simp add: f_def d_def bucketOk_def)
  have o: "bucketOk (cs_wins e) (cs_faced e) \<Longrightarrow> bucketOk (cs_wins (f e)) (cs_faced (f e))" for e
    by (simp add: f_def bucketOk_def)
  show ?thesis
    unfolding eq
    by (rule obj_bump_inv[of m "\<lambda>e. bucketOk (cs_wins e) (cs_faced e)" f d "name c"])
       (use assms n o in blast)+
qed

lemma bumpDeckStat_inv:
  assumes "\<forall>p \<in> set m. bucketOk (ds_wins (snd p)) (ds_faced (snd p))"
  shows "\<forall>p \<in> set (bumpDeckStat isWin m k cs). bucketOk (ds_wins (snd p)) (ds_faced (snd p))"
proof -
  define f where "f = (\<lambda>e::DeckStat. e\<lparr>ds_faced := ds_faced e + 1,
                              ds_wins := (if isWin then ds_wins e + 1 else ds_wins e)\<rparr>)"
  define d where "d = \<lparr>ds_faced = 0, ds_wins = 0, ds_cards = cs\<rparr>"
  have eq: "bumpDeckStat isWin m k cs =
            objSet m k (f (case objGet m k of None \<Rightarrow> d | Some e \<Rightarrow> e))"
    unfolding bumpDeckStat_def Let_def f_def d_def by (rule refl)
  have n: "bucketOk (ds_wins (f d)) (ds_faced (f d))"
    by (simp add: f_def d_def bucketOk_def)
  have o: "bucketOk (ds_wins e) (ds_faced e) \<Longrightarrow> bucketOk (ds_wins (f e)) (ds_faced (f e))" for e
    by (simp add: f_def bucketOk_def)
  show ?thesis
    unfolding eq
    by (rule obj_bump_inv[of m "\<lambda>e. bucketOk (ds_wins e) (ds_faced e)" f d k])
       (use assms n o in blast)+
qed

lemma bumpArchetypeStat_inv:
  assumes "\<forall>p \<in> set m. bucketOk (as_wins (snd p)) (as_faced (snd p))"
  shows "\<forall>p \<in> set (bumpArchetypeStat isWin m k). bucketOk (as_wins (snd p)) (as_faced (snd p))"
proof -
  define f where "f = (\<lambda>e::ArchetypeStat. e\<lparr>as_faced := as_faced e + 1,
                              as_wins := (if isWin then as_wins e + 1 else as_wins e)\<rparr>)"
  define d where "d = \<lparr>as_faced = 0, as_wins = 0\<rparr>"
  have eq: "bumpArchetypeStat isWin m k =
            objSet m k (f (case objGet m k of None \<Rightarrow> d | Some e \<Rightarrow> e))"
    unfolding bumpArchetypeStat_def Let_def f_def d_def by (rule refl)
  have n: "bucketOk (as_wins (f d)) (as_faced (f d))"
    by (simp add: f_def d_def bucketOk_def)
  have o: "bucketOk (as_wins e) (as_faced e) \<Longrightarrow> bucketOk (as_wins (f e)) (as_faced (f e))" for e
    by (simp add: f_def bucketOk_def)
  show ?thesis
    unfolding eq
    by (rule obj_bump_inv[of m "\<lambda>e. bucketOk (as_wins e) (as_faced e)" f d k])
       (use assms n o in blast)+
qed

lemma trophyGap_tables:
  "cardStats (trophyGap w p q st) = cardStats st"
  "deckStats (trophyGap w p q st) = deckStats st"
  "archetypeStats (trophyGap w p q st) = archetypeStats st"
  by (simp_all add: trophyGap_def)

lemma trophyGap_bounds:
  assumes "0 \<le> higherTrophiesWins st \<and> higherTrophiesWins st \<le> higherTrophiesFaced st \<and>
           0 \<le> lowerTrophiesWins st \<and> lowerTrophiesWins st \<le> lowerTrophiesFaced st"
  shows "0 \<le> higherTrophiesWins (trophyGap w p q st) \<and>
         higherTrophiesWins (trophyGap w p q st) \<le> higherTrophiesFaced (trophyGap w p q st) \<and>
         0 \<le> lowerTrophiesWins (trophyGap w p q st) \<and>
         lowerTrophiesWins (trophyGap w p q st) \<le> lowerTrophiesFaced (trophyGap w p q st)"
  using assms by (simp add: trophyGap_def)

lemma faceBattle_cases:
  assumes "faceBattle playerTag st battle = Inr st'"
  shows "st' = st \<or>
         (\<exists>w p q ocs. st' = trophyGap w p q
             (st\<lparr>m_totalBattles := m_totalBattles st + 1,
                 cardStats := foldl (bumpCardStat w) (cardStats st) ocs,
                 deckStats := bumpDeckStat w (deckStats st) (opponentDeckKey ocs) ocs,
                 archetypeStats := bumpArchetypeStat w (archetypeStats st) (getArchetype ocs)\<rparr>))"
proof (cases "battleType battle \<noteq> ''PvP'' \<and> battleType battle \<noteq> ''pathOfLegend''")
  case True
  with assms show ?thesis by (simp add: faceBattle_def)
next
  case False
  note ty = this
  show ?thesis
  proof (cases "playerTeamOf playerTag battle")
    case None
    with assms ty show ?thesis by (simp add: faceBattle_def)
  next
    case (Some player)
    note pl = this
    show ?thesis
    proof (cases "opponent battle")
      case Nil
      with assms ty pl show ?thesis by (simp add: faceBattle_def)
    next
      case (Cons opp rest)
      note op = this
      show ?thesis
      proof (cases "cards opp")
        case None
        with assms ty pl op show ?thesis by (simp add: faceBattle_def Let_def)
      next
        case (Some ocs)
        with assms ty pl op have "st' = trophyGap (crownsGreater (crowns player) (crowns opp)) player opp
             (st\<lparr>m_totalBattles := m_totalBattles st + 1,
                 cardStats := foldl (bumpCardStat (crownsGreater (crowns player) (crowns opp)))
                                (cardStats st) ocs,
                 deckStats := bumpDeckStat (crownsGreater (crowns player) (crowns opp))
                                (deckStats st) (opponentDeckKey ocs) ocs,
                 archetypeStats := bumpArchetypeStat (crownsGreater (crowns player) (crowns opp))
                                     (archetypeStats st) (getArchetype ocs)\<rparr>)"
          by (simp add: faceBattle_def Let_def)
        then show ?thesis by blast
      qed
    qed
  qed
qed

lemma faceBattle_inv:
  assumes "matchupInv st" "faceBattle playerTag st battle = Inr st'"
  shows "matchupInv st'"
proof -
  from assms(1) have c: "\<forall>p \<in> set (cardStats st). bucketOk (cs_wins (snd p)) (cs_faced (snd p))"
    and d: "\<forall>p \<in> set (deckStats st). bucketOk (ds_wins (snd p)) (ds_faced (snd p))"
    and a: "\<forall>p \<in> set (archetypeStats st). bucketOk (as_wins (snd p)) (as_faced (snd p))"
    and t: "0 \<le> higherTrophiesWins st \<and> higherTrophiesWins st \<le> higherTrophiesFaced st \<and>
            0 \<le> lowerTrophiesWins st \<and> lowerTrophiesWins st \<le> lowerTrophiesFaced st"
    by (simp_all add: matchupInv_def)
  have c': "\<forall>p \<in> set (foldl (bumpCardStat w) (cardStats st) cs).
              bucketOk (cs_wins (snd p)) (cs_faced (snd p))" for w cs
    using c by (rule foldl_inv) (rule bumpCardStat_inv)
  from faceBattle_cases[OF assms(2)] show ?thesis
  proof (elim disjE exE)
    assume "st' = st"
    with assms(1) show ?thesis by simp
  next
    fix w p q ocs
    define st1 where "st1 = st\<lparr>m_totalBattles := m_totalBattles st + 1,
                 cardStats := foldl (bumpCardStat w) (cardStats st) ocs,
                 deckStats := bumpDeckStat w (deckStats st) (opponentDeckKey ocs) ocs,
                 archetypeStats := bumpArchetypeStat w (archetypeStats st) (getArchetype ocs)\<rparr>"
    assume "st' = trophyGap w p q
             (st\<lparr>m_totalBattles := m_totalBattles st + 1,
                 cardStats := foldl (bumpCardStat w) (cardStats st) ocs,
                 deckStats := bumpDeckStat w (deckStats st) (opponentDeckKey ocs) ocs,
                 archetypeStats := bumpArchetypeStat w (archetypeStats st) (getArchetype ocs)\<rparr>)"
    then have st': "st' = trophyGap w p q st1" by (simp only: st1_def)
    have t1: "0 \<le> higherTrophiesWins st1 \<and> higherTrophiesWins st1 \<le> higherTrophiesFaced st1 \<and>
            0 \<le> lowerTrophiesWins st1 \<and> lowerTrophiesWins st1 \<le> lowerTrophiesFaced st1"
      using t by (simp add: st1_def)
    have "cardStats st1 = foldl (bumpCardStat w) (cardStats st) ocs"
      "deckStats st1 = bumpDeckStat w (deckStats st) (opponentDeckKey ocs) ocs"
      "archetypeStats st1 = bumpArchetypeStat w (archetypeStats st) (getArchetype ocs)"
      by (simp_all add: st1_def)
    then show ?thesis
      unfolding matchupInv_def st' trophyGap_tables
      using c'[of w ocs] bumpDeckStat_inv[OF d] bumpArchetypeStat_inv[OF a]
        trophyGap_bounds[OF t1, of w p q]
      by simp
  qed
qed

lemma faceBattles_inv:
  assumes "faceBattles playerTag battles = Inr st"
  shows "matchupInv st"
proof -
  let ?init = "\<lparr>cardStats = [], deckStats = [], archetypeStats = [],
        higherTrophiesFaced = 0, higherTrophiesWins = 0,
        lowerTrophiesFaced = 0, lowerTrophiesWins = 0, m_totalBattles = 0\<rparr>"
  have i: "matchupInv ?init" by (simp add: matchupInv_def)
  from assms have r: "forEachE (faceBattle playerTag) ?init battles = Inr st"
    by (simp add: faceBattles_def)
  show ?thesis
    by (rule forEachE_inv[where P = matchupInv, OF i _ r]) (rule faceBattle_inv)
qed

lemma bucketOk_rate: "bucketOk w n \<Longrightarrow> rateInUnit w n"
  by (simp add: bucketOk_def rateInUnit_def winRate_def)

lemma bounds_rate: "0 \<le> w \<Longrightarrow> w \<le> n \<Longrightarrow> rateInUnit w n"
  by (simp add: rateInUnit_def winRate_def)

section \<open>The sample battles, evaluated\<close>

lemma sample_usage_eval:
  "(case PlayerUsageStats codeUnitCompare sampleBattles ''#P'' [] of
      Inr (Some s) \<Rightarrow> mostUsedDeckCount s = 2 \<and> mostUsedDeckWins s = 1 \<and>
         map_option (map name) (mostUsedDeck s) = Some [''A'', ''B'', ''C'', ''D'', ''E'', ''F'', ''G'', ''H'']
    | _ \<Rightarrow> False)"
  by code_simp

lemma sample_tables_eval:
  "(case countBattles codeUnitCompare ''#P'' sampleBattles of
      Inr st \<Rightarrow> deckCounts st \<noteq> [] \<and> cardCounts st \<noteq> []
    | _ \<Rightarrow> False)"
  by code_simp

lemma sample_usage:
  "\<exists>s. PlayerUsageStats codeUnitCompare sampleBattles ''#P'' [] = Inr (Some s) \<and>
       (mostUsedDeckCount s = 2 \<and> mostUsedDeckWins s = 1 \<and>
       map_option (map name) (mostUsedDeck s) = Some [''A'', ''B'', ''C'', ''D'', ''E'', ''F'', ''G'', ''H''])"
  using sample_usage_eval by (rule case_sum_option_ex)

lemma sample_tables:
  "\<exists>st. countBattles codeUnitCompare ''#P'' sampleBattles = Inr st \<and>
        (deckCounts st \<noteq> [] \<and> cardCounts st \<noteq> [])"
  using sample_tables_eval by (rule case_sum_ex)

lemma sample_matchup_eval:
  "(case PlayerMatchupStats (sampleBattles @ [noOpponentBattle]) ''#P'' of
      Inr (Some s) \<Rightarrow> ms_totalBattles s = 2
    | _ \<Rightarrow> False)"
  by code_simp

lemma noOpponentBattle_facts:
  "battleType noOpponentBattle = ''PvP''" "opponent noOpponentBattle = []"
  by (simp_all add: noOpponentBattle_def)

lemma sample_matchup_tables_eval:
  "(case faceBattles ''#P'' sampleBattles of
      Inr mt \<Rightarrow> map fst (cardStats mt) = [''Golem'', ''X'', ''Y''] \<and>
                map (cs_faced \<circ> snd) (cardStats mt) = [2, 1, 1] \<and>
                map (cs_wins \<circ> snd) (cardStats mt) = [1, 1, 0]
    | _ \<Rightarrow> False)"
  by code_simp

lemma sample_usage_tables_eval:
  "(case countBattles codeUnitCompare ''#P'' sampleBattles of
      Inr st \<Rightarrow> map fst (cardCounts st) = [''A'', ''B'', ''C'', ''D'', ''E'', ''F'', ''G'', ''H''] \<and>
                map (cc_count \<circ> snd) (cardCounts st) = [2, 2, 2, 2, 2, 2, 2, 2] \<and>
                map (cc_wins \<circ> snd) (cardCounts st) = [1, 1, 1, 1, 1, 1, 1, 1]
    | _ \<Rightarrow> False)"
  by code_simp

section \<open>Malformed battles\<close>

lemma countBattle_no_opponent:
  "opponent battle = [] \<Longrightarrow> countBattle lc playerTag st battle = Inl TypeError"
  by (simp add: countBattle_def split: option.splits)

lemma countBattle_skips_missing_cards:
  "playerTeamOf playerTag battle = Some playerTeam \<Longrightarrow> cards playerTeam = None \<Longrightarrow>
   opponent battle \<noteq> [] \<Longrightarrow> countBattle lc playerTag st battle = Inr st"
  by (simp add: countBattle_def Let_def split: list.splits)

lemma faceBattle_skips_missing_opponent:
  "opponent battle = [] \<Longrightarrow> faceBattle playerTag st battle = Inr st"
  by (simp add: faceBattle_def split: option.splits)

lemma faceBattle_missing_opponent_cards:
  "battleType battle = ''PvP'' \<Longrightarrow> playerTeamOf playerTag battle = Some player \<Longrightarrow>
   opponent battle = opp # rest \<Longrightarrow> cards opp = None \<Longrightarrow>
   faceBattle playerTag st battle = Inl TypeError"
  by (simp add: faceBattle_def Let_def)

text \<open>
  Claim C4. The claim is that a battle missing its opponent side is skipped and never makes
  an aggregator throw. In \<open>PlayerUsageStats\<close> the crowns of \<^verbatim>\<open>battle.opponent[0]\<close> are read
  before any guard: one ladder or path-of-legend battle with an empty opponent array
  anywhere in the list makes the whole computation raise a TypeError, whatever the other
  battles are.
\<close>

theorem usage_stats_abort_on_missing_opponent:
  assumes "b \<in> set battles"
      and "battleType b = ''PvP'' \<or> battleType b = ''pathOfLegend''"
      and "opponent b = []"
  shows "PlayerUsageStats lc battles playerTag cardData = Inl TypeError"
proof -
  from assms(1,2) have v: "b \<in> set (validBattles battles)" by (simp add: validBattles_def)
  have "\<And>s. countBattle lc playerTag s b = Inl TypeError"
    using assms(3) by (rule countBattle_no_opponent)
  with v have "countBattles lc playerTag battles = Inl TypeError"
    unfolding countBattles_def by (rule forEachE_throws)
  moreover from assms(1) have "battles \<noteq> []" by auto
  moreover from v have "validBattles battles \<noteq> []" by auto
  ultimately show ?thesis by (simp add: PlayerUsageStats_def)
qed

theorem usage_stats_abort_on_missing_opponent_witness:
  "noOpponentBattle \<in> set (sampleBattles @ [noOpponentBattle]) \<and>
   battleType noOpponentBattle = ''PvP'' \<and> opponent noOpponentBattle = [] \<and>
   PlayerUsageStats codeUnitCompare (sampleBattles @ [noOpponentBattle]) ''#P'' [] = Inl TypeError \<and>
   (\<exists>s. PlayerUsageStats codeUnitCompare sampleBattles ''#P'' [] = Inr (Some s)) \<and>
   (\<exists>s. PlayerMatchupStats (sampleBattles @ [noOpponentBattle]) ''#P'' = Inr (Some s) \<and>
        ms_totalBattles s = 2)"
proof -
  have m: "noOpponentBattle \<in> set (sampleBattles @ [noOpponentBattle])" by simp
  have t: "battleType noOpponentBattle = ''PvP'' \<or> battleType noOpponentBattle = ''pathOfLegend''"
    by (simp add: noOpponentBattle_facts)
  have "PlayerUsageStats codeUnitCompare (sampleBattles @ [noOpponentBattle]) ''#P'' [] =
        Inl TypeError"
    using m t noOpponentBattle_facts(2) by (rule usage_stats_abort_on_missing_opponent)
  moreover from sample_usage
  have "\<exists>s. PlayerUsageStats codeUnitCompare sampleBattles ''#P'' [] = Inr (Some s)"
    by (elim exE conjE) (rule exI)
  moreover have "\<exists>s. PlayerMatchupStats (sampleBattles @ [noOpponentBattle]) ''#P'' = Inr (Some s) \<and>
        ms_totalBattles s = 2"
    using sample_matchup_eval by (rule case_sum_option_ex)
  ultimately show ?thesis using m noOpponentBattle_facts by (intro conjI)
qed

section \<open>Most used deck\<close>

lemma variantLess_key:
  "variantLess a b \<longleftrightarrow> (vc_count a, vc_wins a) < (vc_count b, vc_wins b)"
  by (auto simp: variantLess_def less_prod_def)

lemma deckLess_key:
  "deckLess a b \<longleftrightarrow> (dc_count a, dc_wins a) < (dc_count b, dc_wins b)"
  by (auto simp: deckLess_def less_prod_def)

lemma variantStep_eq:
  "variantStep acc v =
     (if True \<and> snd acc < (vc_count v, vc_wins v)
      then (Some (vc_cards v), vc_count v, vc_wins v) else acc)"
  by (cases acc) (auto simp: variantStep_def less_prod_def)

lemma deckStep_eq:
  "deckStep acc d =
     (if True \<and> snd acc < (dc_count d, dc_wins d)
      then (bestVariant (dc_variants d), dc_count d, dc_wins d) else acc)"
  by (cases acc) (auto simp: deckStep_def less_prod_def)

lemma bestVariant_first:
  assumes ne: "vs \<noteq> []"
      and ok: "\<forall>q \<in> set vs. bucketOk (vc_wins (snd q)) (vc_count (snd q))"
  shows "\<exists>k. firstBest variantLess (objectValues vs) k \<and>
             bestVariant vs = Some (vc_cards (objectValues vs ! k))"
proof -
  let ?xs = "objectValues vs"
  let ?key = "\<lambda>v. (vc_count v, vc_wins v)"
  let ?upd = "\<lambda>v. (Some (vc_cards v), vc_count v, vc_wins v)"
  have low: "\<forall>v \<in> set ?xs. True \<longrightarrow> snd (None :: Card list option, - 1 :: int, - 1 :: int) < ?key v"
    using ok by (auto simp: set_objectValues bucketOk_def less_prod_def)
  have ex: "\<exists>v \<in> set ?xs. True"
    using ne objectValues_empty[of vs] by (cases "objectValues vs") auto
  from foldl_first_max[where step = variantStep and q = "\<lambda>_. True" and key = ?key
      and getk = snd and upd = ?upd and init = "(None, - 1, - 1)" and xs = ?xs,
      OF variantStep_eq _ low] ex
  obtain k where k: "k < length ?xs"
    "foldl variantStep (None, - 1, - 1) ?xs = ?upd (?xs ! k)"
    "\<forall>j<length ?xs. ?key (?xs ! j) \<le> ?key (?xs ! k)"
    "\<forall>j<k. ?key (?xs ! j) < ?key (?xs ! k)"
    by auto
  have "\<forall>j<length ?xs. \<not> variantLess (?xs ! k) (?xs ! j)"
    using k(3) by (simp only: variantLess_key not_less)
  moreover have "\<forall>j<k. variantLess (?xs ! j) (?xs ! k)"
    using k(4) by (simp only: variantLess_key)
  ultimately have "firstBest variantLess ?xs k"
    using k(1) by (simp only: firstBest_def simp_thms)
  moreover from k(2) have "bestVariant vs = Some (vc_cards (?xs ! k))"
    by (simp add: bestVariant_def)
  ultimately show ?thesis by blast
qed

lemma selectMostUsedDeck_first:
  assumes ne: "dc \<noteq> []" and ok: "\<forall>p \<in> set dc. deckOk (snd p)"
  shows "\<exists>i. firstBest deckLess (objectValues dc) i \<and>
             selectMostUsedDeck dc =
               (bestVariant (dc_variants (objectValues dc ! i)),
                dc_count (objectValues dc ! i), dc_wins (objectValues dc ! i))"
proof -
  let ?xs = "objectValues dc"
  let ?key = "\<lambda>d. (dc_count d, dc_wins d)"
  let ?upd = "\<lambda>d. (bestVariant (dc_variants d), dc_count d, dc_wins d)"
  have low: "\<forall>d \<in> set ?xs. True \<longrightarrow> snd (None :: Card list option, 0 :: int, 0 :: int) < ?key d"
    using ok by (auto simp: set_objectValues deckOk_def bucketOk_def less_prod_def)
  have ex: "\<exists>d \<in> set ?xs. True"
    using ne objectValues_empty[of dc] by (cases "objectValues dc") auto
  from foldl_first_max[where step = deckStep and q = "\<lambda>_. True" and key = ?key
      and getk = snd and upd = ?upd and init = "(None, 0, 0)" and xs = ?xs,
      OF deckStep_eq _ low] ex
  obtain i where i: "i < length ?xs"
    "foldl deckStep (None, 0, 0) ?xs = ?upd (?xs ! i)"
    "\<forall>j<length ?xs. ?key (?xs ! j) \<le> ?key (?xs ! i)"
    "\<forall>j<i. ?key (?xs ! j) < ?key (?xs ! i)"
    by auto
  have "\<forall>j<length ?xs. \<not> deckLess (?xs ! i) (?xs ! j)"
    using i(3) by (simp only: deckLess_key not_less)
  moreover have "\<forall>j<i. deckLess (?xs ! j) (?xs ! i)"
    using i(4) by (simp only: deckLess_key)
  ultimately have "firstBest deckLess ?xs i"
    using i(1) by (simp only: firstBest_def simp_thms)
  moreover from i(2) have "selectMostUsedDeck dc = ?upd (?xs ! i)"
    by (simp add: selectMostUsedDeck_def)
  ultimately show ?thesis by blast
qed

text \<open>
  The battles of \<open>deckBattles\<close> use five DeckKeys, in this order: G,H (1 battle, 1 win),
  A,B (7, 0), C,D (7, 3), E,F (7, 3) and I,J (1, 1). The deck C,D was played in four
  variants: no evolution (1, 1), C evolved (2, 0), D evolved (2, 1), both evolved (2, 1).
\<close>

lemma deck_tables_eval:
  "(case countBattles codeUnitCompare ''#P'' deckBattles of
      Inr st \<Rightarrow> deckCounts st \<noteq> [] \<and>
        map fst (deckCounts st) = [''G,H'', ''A,B'', ''C,D'', ''E,F'', ''I,J''] \<and>
        map (\<lambda>d. (dc_count d, dc_wins d)) (objectValues (deckCounts st)) =
          [(1, 1), (7, 0), (7, 3), (7, 3), (1, 1)] \<and>
        map fst (dc_variants (objectValues (deckCounts st) ! 2)) =
          [''BASE'', ''C:EVO'', ''D:EVO'', ''C:EVO|D:EVO''] \<and>
        map (\<lambda>v. (vc_count v, vc_wins v))
          (objectValues (dc_variants (objectValues (deckCounts st) ! 2))) =
          [(1, 1), (2, 0), (2, 1), (2, 1)]
    | _ \<Rightarrow> False)"
  by code_simp

lemma deck_usage_eval:
  "(case PlayerUsageStats codeUnitCompare deckBattles ''#P'' [] of
      Inr (Some s) \<Rightarrow> mostUsedDeckCount s = 7 \<and> mostUsedDeckWins s = 3 \<and>
         map_option (map name) (mostUsedDeck s) = Some [''C'', ''D''] \<and>
         map_option (map evolutionLevel) (mostUsedDeck s) = Some [None, Some 1]
    | _ \<Rightarrow> False)"
  by code_simp

lemma deck_tables:
  "\<exists>st. countBattles codeUnitCompare ''#P'' deckBattles = Inr st \<and>
      (deckCounts st \<noteq> [] \<and>
        map fst (deckCounts st) = [''G,H'', ''A,B'', ''C,D'', ''E,F'', ''I,J''] \<and>
        map (\<lambda>d. (dc_count d, dc_wins d)) (objectValues (deckCounts st)) =
          [(1, 1), (7, 0), (7, 3), (7, 3), (1, 1)] \<and>
        map fst (dc_variants (objectValues (deckCounts st) ! 2)) =
          [''BASE'', ''C:EVO'', ''D:EVO'', ''C:EVO|D:EVO''] \<and>
        map (\<lambda>v. (vc_count v, vc_wins v))
          (objectValues (dc_variants (objectValues (deckCounts st) ! 2))) =
          [(1, 1), (2, 0), (2, 1), (2, 1)])"
  using deck_tables_eval by (rule case_sum_ex)

lemma deck_usage:
  "\<exists>s. PlayerUsageStats codeUnitCompare deckBattles ''#P'' [] = Inr (Some s) \<and>
      (mostUsedDeckCount s = 7 \<and> mostUsedDeckWins s = 3 \<and>
         map_option (map name) (mostUsedDeck s) = Some [''C'', ''D''] \<and>
         map_option (map evolutionLevel) (mostUsedDeck s) = Some [None, Some 1])"
  using deck_usage_eval by (rule case_sum_option_ex)

lemma firstBest_deck_keys:
  "firstBest (<) [(1, 1), (7, 0), (7, 3), (7, 3), (1::int, 1::int)] (2::nat)"
  by (simp add: firstBest_list less_prod_def)

lemma firstBest_variant_keys:
  "firstBest (<) [(1, 1), (2, 0), (2, 1), (2::int, 1::int)] (2::nat)"
  by (simp add: firstBest_list less_prod_def)

text \<open>
  Claim C5. The reported most used deck is the first DeckKey bucket, in enumeration order,
  that is maximal for (count, wins) compared lexicographically; its count and wins are
  reported, and the reported cards are those of the first variant of that bucket that is
  maximal for (count, wins).
\<close>

theorem most_used_deck_selection:
  assumes run: "countBattles lc playerTag battles = Inr st"
      and ne: "deckCounts st \<noteq> []"
      and res: "PlayerUsageStats lc battles playerTag cardData = Inr (Some s)"
  shows "\<exists>i k. firstBest deckLess (objectValues (deckCounts st)) i \<and>
               mostUsedDeckCount s = dc_count (objectValues (deckCounts st) ! i) \<and>
               mostUsedDeckWins s = dc_wins (objectValues (deckCounts st) ! i) \<and>
               firstBest variantLess
                 (objectValues (dc_variants (objectValues (deckCounts st) ! i))) k \<and>
               mostUsedDeck s =
                 Some (vc_cards (objectValues (dc_variants (objectValues (deckCounts st) ! i)) ! k))"
proof -
  let ?ds = "objectValues (deckCounts st)"
  from run have inv: "usageInv st" by (rule countBattles_inv)
  then have ok: "\<forall>p \<in> set (deckCounts st). deckOk (snd p)" by (simp add: usageInv_alt)
  from selectMostUsedDeck_first[OF ne ok] obtain i where
    i: "firstBest deckLess ?ds i" and
    sel: "selectMostUsedDeck (deckCounts st) =
            (bestVariant (dc_variants (?ds ! i)), dc_count (?ds ! i), dc_wins (?ds ! i))"
    by blast
  from i have "i < length ?ds" by (simp add: firstBest_def)
  then have "?ds ! i \<in> set ?ds" by (rule nth_mem)
  then have "?ds ! i \<in> snd ` set (deckCounts st)" by (simp only: set_objectValues)
  with ok have dok: "deckOk (?ds ! i)" by auto
  then have vne: "dc_variants (?ds ! i) \<noteq> []"
    and vok: "\<forall>q \<in> set (dc_variants (?ds ! i)). bucketOk (vc_wins (snd q)) (vc_count (snd q))"
    by (simp_all add: deckOk_def)
  from bestVariant_first[OF vne vok] obtain k where
    k: "firstBest variantLess (objectValues (dc_variants (?ds ! i))) k"
       "bestVariant (dc_variants (?ds ! i)) =
          Some (vc_cards (objectValues (dc_variants (?ds ! i)) ! k))"
    by blast
  from PlayerUsageStats_Some(6,7,8)[OF res run] sel k(2)
  have "mostUsedDeckCount s = dc_count (?ds ! i)" "mostUsedDeckWins s = dc_wins (?ds ! i)"
    "mostUsedDeck s = Some (vc_cards (objectValues (dc_variants (?ds ! i)) ! k))"
    by simp_all
  with i k(1) show ?thesis by blast
qed

theorem most_used_deck_selection_witness:
  "\<exists>st s. countBattles codeUnitCompare ''#P'' deckBattles = Inr st \<and>
     deckCounts st \<noteq> [] \<and>
     PlayerUsageStats codeUnitCompare deckBattles ''#P'' [] = Inr (Some s) \<and>
     map fst (deckCounts st) = [''G,H'', ''A,B'', ''C,D'', ''E,F'', ''I,J''] \<and>
     map (\<lambda>d. (dc_count d, dc_wins d)) (objectValues (deckCounts st)) =
       [(1, 1), (7, 0), (7, 3), (7, 3), (1, 1)] \<and>
     map fst (dc_variants (objectValues (deckCounts st) ! 2)) =
       [''BASE'', ''C:EVO'', ''D:EVO'', ''C:EVO|D:EVO''] \<and>
     map (\<lambda>v. (vc_count v, vc_wins v))
       (objectValues (dc_variants (objectValues (deckCounts st) ! 2))) =
       [(1, 1), (2, 0), (2, 1), (2, 1)] \<and>
     firstBest deckLess (objectValues (deckCounts st)) 2 \<and>
     mostUsedDeckCount s = dc_count (objectValues (deckCounts st) ! 2) \<and>
     mostUsedDeckWins s = dc_wins (objectValues (deckCounts st) ! 2) \<and>
     firstBest variantLess (objectValues (dc_variants (objectValues (deckCounts st) ! 2))) 2 \<and>
     mostUsedDeck s =
       Some (vc_cards (objectValues (dc_variants (objectValues (deckCounts st) ! 2)) ! 2)) \<and>
     mostUsedDeckCount s = 7 \<and> mostUsedDeckWins s = 3 \<and>
     map_option (map name) (mostUsedDeck s) = Some [''C'', ''D''] \<and>
     map_option (map evolutionLevel) (mostUsedDeck s) = Some [None, Some 1]"
proof -
  from deck_tables obtain st where
    st: "countBattles codeUnitCompare ''#P'' deckBattles = Inr st" "deckCounts st \<noteq> []"
    and names: "map fst (deckCounts st) = [''G,H'', ''A,B'', ''C,D'', ''E,F'', ''I,J'']"
    and dkeys: "map (\<lambda>d. (dc_count d, dc_wins d)) (objectValues (deckCounts st)) =
          [(1, 1), (7, 0), (7, 3), (7, 3), (1, 1)]"
    and vnames: "map fst (dc_variants (objectValues (deckCounts st) ! 2)) =
          [''BASE'', ''C:EVO'', ''D:EVO'', ''C:EVO|D:EVO'']"
    and vkeys: "map (\<lambda>v. (vc_count v, vc_wins v))
          (objectValues (dc_variants (objectValues (deckCounts st) ! 2))) =
          [(1, 1), (2, 0), (2, 1), (2, 1)]"
    by (elim exE conjE)
  from deck_usage obtain s where
    s: "PlayerUsageStats codeUnitCompare deckBattles ''#P'' [] = Inr (Some s)"
    and rep: "mostUsedDeckCount s = 7" "mostUsedDeckWins s = 3"
       "map_option (map name) (mostUsedDeck s) = Some [''C'', ''D'']"
       "map_option (map evolutionLevel) (mostUsedDeck s) = Some [None, Some 1]"
    by (elim exE conjE)
  from most_used_deck_selection[OF st s] obtain i k where
    i: "firstBest deckLess (objectValues (deckCounts st)) i"
    and c: "mostUsedDeckCount s = dc_count (objectValues (deckCounts st) ! i)"
    and w: "mostUsedDeckWins s = dc_wins (objectValues (deckCounts st) ! i)"
    and k: "firstBest variantLess
              (objectValues (dc_variants (objectValues (deckCounts st) ! i))) k"
    and d: "mostUsedDeck s =
       Some (vc_cards (objectValues (dc_variants (objectValues (deckCounts st) ! i)) ! k))"
    by (elim exE conjE)
  have "firstBest deckLess (objectValues (deckCounts st)) 2"
    unfolding firstBest_by_key[of deckLess "\<lambda>d. (dc_count d, dc_wins d)", OF deckLess_key] dkeys
    by (rule firstBest_deck_keys)
  with i have i2: "i = 2" by (rule firstBest_unique)
  have "firstBest variantLess (objectValues (dc_variants (objectValues (deckCounts st) ! 2))) 2"
    unfolding firstBest_by_key[of variantLess "\<lambda>v. (vc_count v, vc_wins v)", OF variantLess_key]
      vkeys
    by (rule firstBest_variant_keys)
  with k[unfolded i2] have k2: "k = 2" by (rule firstBest_unique)
  note i' = i[unfolded i2] and c' = c[unfolded i2] and w' = w[unfolded i2]
    and k' = k[unfolded i2 k2] and d' = d[unfolded i2 k2]
  show ?thesis
    by (intro exI[of _ st] exI[of _ s] conjI st s names dkeys vnames vkeys i' c' w' k' d' rep)
qed

section \<open>Best and most used card\<close>

lemma bestCardStep_eq:
  "bestCardStep acc item =
     (if cc_count item \<ge> 5 \<and> fst (snd acc) < itemRate item
      then (Some (cc_card item), itemRate item, cc_count item) else acc)"
  by (simp add: bestCardStep_def itemRate_def)

lemma mostUsedStep_eq:
  "mostUsedStep acc item =
     (if True \<and> snd acc < cc_count item then (Some (cc_card item), cc_count item) else acc)"
  by (simp add: mostUsedStep_def)

lemma fallbackStep_eq:
  "fallbackStep acc item =
     (if True \<and> fst acc < cc_count item
      then (cc_count item, Some (cc_card item), itemRate item, cc_count item) else acc)"
  by (simp add: fallbackStep_def itemRate_def)

lemma bucketOk_rate_nonneg: "bucketOk w n \<Longrightarrow> 0 \<le> winRate w n"
  by (simp add: bucketOk_def winRate_def)

lemma bestCard_threshold:
  assumes ok: "\<forall>x \<in> set items. bucketOk (cc_wins x) (cc_count x)"
  shows "if \<exists>x \<in> set items. cc_count x \<ge> 5
         then \<exists>i<length items. cc_count (items ! i) \<ge> 5 \<and>
                foldl bestCardStep (None, - 1, 0) items =
                  (Some (cc_card (items ! i)), itemRate (items ! i), cc_count (items ! i)) \<and>
                (\<forall>j<length items. cc_count (items ! j) \<ge> 5 \<longrightarrow>
                     itemRate (items ! j) \<le> itemRate (items ! i)) \<and>
                (\<forall>j<i. cc_count (items ! j) \<ge> 5 \<longrightarrow> itemRate (items ! j) < itemRate (items ! i))
         else foldl bestCardStep (None, - 1, 0) items = (None, - 1, 0)"
proof -
  have low: "\<forall>x \<in> set items. cc_count x \<ge> 5 \<longrightarrow>
               fst (snd (None :: Card option, - 1 :: rat, 0 :: int)) < itemRate x"
  proof (intro ballI impI)
    fix x assume "x \<in> set items"
    with ok have "0 \<le> winRate (cc_wins x) (cc_count x)" by (simp add: bucketOk_rate_nonneg)
    then show "fst (snd (None :: Card option, - 1 :: rat, 0 :: int)) < itemRate x"
      by (simp add: itemRate_def)
  qed
  show ?thesis
    by (rule foldl_first_max[where step = bestCardStep and q = "\<lambda>x. cc_count x \<ge> 5"
          and key = itemRate and getk = "\<lambda>acc. fst (snd acc)"
          and upd = "\<lambda>x. (Some (cc_card x), itemRate x, cc_count x)"
          and init = "(None, - 1, 0)" and xs = items, OF bestCardStep_eq _ low]) simp
qed

lemma firstBest_countLess:
  assumes "i < length items"
      and "\<forall>j<length items. True \<longrightarrow> cc_count (items ! j) \<le> cc_count (items ! i)"
      and "\<forall>j<i. True \<longrightarrow> cc_count (items ! j) < cc_count (items ! i)"
  shows "firstBest countLess items i"
  using assms by (simp add: firstBest_def countLess_def not_less)

lemma mostUsed_first:
  assumes ne: "items \<noteq> []" and ok: "\<forall>x \<in> set items. bucketOk (cc_wins x) (cc_count x)"
  shows "\<exists>i. firstBest countLess items i \<and>
             selectMostUsedCard items = (Some (cc_card (items ! i)), cc_count (items ! i))"
proof -
  have low: "\<forall>x \<in> set items. True \<longrightarrow> snd (None :: Card option, 0 :: int) < cc_count x"
    using ok by (fastforce simp: bucketOk_def)
  from ne have ex: "\<exists>x \<in> set items. True" by (cases items) auto
  from foldl_first_max[where step = mostUsedStep and q = "\<lambda>_. True" and key = cc_count
      and getk = snd and upd = "\<lambda>x. (Some (cc_card x), cc_count x)"
      and init = "(None, 0)" and xs = items, OF mostUsedStep_eq _ low] ex
  obtain i where i: "i < length items"
    "foldl mostUsedStep (None, 0) items = (Some (cc_card (items ! i)), cc_count (items ! i))"
    "\<forall>j<length items. True \<longrightarrow> cc_count (items ! j) \<le> cc_count (items ! i)"
    "\<forall>j<i. True \<longrightarrow> cc_count (items ! j) < cc_count (items ! i)"
    by auto
  from firstBest_countLess[OF i(1,3,4)] i(2) show ?thesis
    by (auto simp: selectMostUsedCard_def)
qed

lemma fallback_first:
  assumes ne: "items \<noteq> []" and ok: "\<forall>x \<in> set items. bucketOk (cc_wins x) (cc_count x)"
  shows "\<exists>i. firstBest countLess items i \<and>
             snd (foldl fallbackStep (0, acc) items) =
               (Some (cc_card (items ! i)), itemRate (items ! i), cc_count (items ! i))"
proof -
  have low: "\<forall>x \<in> set items. True \<longrightarrow> fst (0 :: int, acc) < cc_count x"
    using ok by (fastforce simp: bucketOk_def)
  from ne have ex: "\<exists>x \<in> set items. True" by (cases items) auto
  from foldl_first_max[where step = fallbackStep and q = "\<lambda>_. True" and key = cc_count
      and getk = fst
      and upd = "\<lambda>x. (cc_count x, Some (cc_card x), itemRate x, cc_count x)"
      and init = "(0, acc)" and xs = items, OF fallbackStep_eq _ low] ex
  obtain i where i: "i < length items"
    "foldl fallbackStep (0, acc) items =
       (cc_count (items ! i), Some (cc_card (items ! i)), itemRate (items ! i),
        cc_count (items ! i))"
    "\<forall>j<length items. True \<longrightarrow> cc_count (items ! j) \<le> cc_count (items ! i)"
    "\<forall>j<i. True \<longrightarrow> cc_count (items ! j) < cc_count (items ! i)"
    by auto
  from firstBest_countLess[OF i(1,3,4)] i(2) show ?thesis by auto
qed

lemma five_eval:
  "(case countBattles codeUnitCompare ''#P'' fiveBattles of
      Inr st \<Rightarrow>
        (case PlayerUsageStats codeUnitCompare fiveBattles ''#P'' [] of
           Inr (Some s) \<Rightarrow>
             map fst (cardCounts st) = [''A'', ''C''] \<and>
             map (cc_count \<circ> snd) (cardCounts st) = [5, 4] \<and>
             map (cc_wins \<circ> snd) (cardCounts st) = [4, 4] \<and>
             list_ex (\<lambda>x. cc_count x \<ge> 5) (objectValues (cardCounts st)) \<and>
             map_option name (bestCard s) = Some ''A'' \<and>
             bestCardWinRate s = 4 / 5 \<and> bestCardCount s = 5 \<and>
             map_option name (mostUsedCard s) = Some ''A'' \<and> mostUsedCardCount s = 5
         | _ \<Rightarrow> False)
    | _ \<Rightarrow> False)"
  by code_simp

lemma sample_fallback_eval:
  "(case countBattles codeUnitCompare ''#P'' sampleBattles of
      Inr st \<Rightarrow>
        (case PlayerUsageStats codeUnitCompare sampleBattles ''#P'' [] of
           Inr (Some s) \<Rightarrow>
             cardCounts st \<noteq> [] \<and>
             list_all (\<lambda>x. cc_count x < 5) (objectValues (cardCounts st)) \<and>
             map_option name (bestCard s) = Some ''A'' \<and>
             bestCardWinRate s = 1 / 2 \<and> bestCardCount s = 2
         | _ \<Rightarrow> False)
    | _ \<Rightarrow> False)"
  by code_simp

text \<open>
  Claim C6. Once the aggregation has built a non-empty card table, a best card is always
  reported. When some card has count at least 5, the best card is the first card of highest
  win rate among the cards with count at least 5 (so a card with count 4 is never chosen
  there, whatever its rate). The most used card is the first card of highest count among all
  cards (a card with count 4 takes part); when no card has count 5 the best card is that
  most used card, reported with its own win rate and count.
\<close>

theorem best_card_selection:
  assumes run: "countBattles lc playerTag battles = Inr st"
      and res: "PlayerUsageStats lc battles playerTag cardData = Inr (Some s)"
  shows "(cardCounts st \<noteq> [] \<longrightarrow> bestCard s \<noteq> None) \<and>
    ((\<exists>x \<in> set (objectValues (cardCounts st)). cc_count x \<ge> 5) \<longrightarrow>
       (\<exists>i<length (objectValues (cardCounts st)).
          cc_count (objectValues (cardCounts st) ! i) \<ge> 5 \<and>
          bestCard s = Some (cc_card (objectValues (cardCounts st) ! i)) \<and>
          bestCardWinRate s = itemRate (objectValues (cardCounts st) ! i) \<and>
          bestCardCount s = cc_count (objectValues (cardCounts st) ! i) \<and>
          (\<forall>j<length (objectValues (cardCounts st)).
             cc_count (objectValues (cardCounts st) ! j) \<ge> 5 \<longrightarrow>
             itemRate (objectValues (cardCounts st) ! j)
               \<le> itemRate (objectValues (cardCounts st) ! i)) \<and>
          (\<forall>j<i. cc_count (objectValues (cardCounts st) ! j) \<ge> 5 \<longrightarrow>
             itemRate (objectValues (cardCounts st) ! j)
               < itemRate (objectValues (cardCounts st) ! i)))) \<and>
    (cardCounts st \<noteq> [] \<longrightarrow>
       (\<exists>m. firstBest countLess (objectValues (cardCounts st)) m \<and>
          mostUsedCard s = Some (cc_card (objectValues (cardCounts st) ! m)) \<and>
          mostUsedCardCount s = cc_count (objectValues (cardCounts st) ! m) \<and>
          ((\<forall>x \<in> set (objectValues (cardCounts st)). cc_count x < 5) \<longrightarrow>
             bestCard s = Some (cc_card (objectValues (cardCounts st) ! m)) \<and>
             bestCardWinRate s = itemRate (objectValues (cardCounts st) ! m) \<and>
             bestCardCount s = cc_count (objectValues (cardCounts st) ! m))))"
proof -
  let ?items = "objectValues (cardCounts st)"
  from run have "usageInv st" by (rule countBattles_inv)
  then have "\<forall>p \<in> set (cardCounts st). bucketOk (cc_wins (snd p)) (cc_count (snd p))"
    by (simp add: usageInv_def)
  then have ok: "\<forall>x \<in> set ?items. bucketOk (cc_wins x) (cc_count x)"
    by (simp add: set_objectValues)
  note sel = PlayerUsageStats_Some(1-5)[OF res run]
  note thr = bestCard_threshold[OF ok]
  have part2: "\<exists>i<length ?items.
          cc_count (?items ! i) \<ge> 5 \<and>
          bestCard s = Some (cc_card (?items ! i)) \<and>
          bestCardWinRate s = itemRate (?items ! i) \<and>
          bestCardCount s = cc_count (?items ! i) \<and>
          (\<forall>j<length ?items. cc_count (?items ! j) \<ge> 5 \<longrightarrow>
             itemRate (?items ! j) \<le> itemRate (?items ! i)) \<and>
          (\<forall>j<i. cc_count (?items ! j) \<ge> 5 \<longrightarrow> itemRate (?items ! j) < itemRate (?items ! i))"
    if ex: "\<exists>x \<in> set ?items. cc_count x \<ge> 5"
  proof -
    from thr ex obtain i where i: "i < length ?items" "cc_count (?items ! i) \<ge> 5"
      "foldl bestCardStep (None, - 1, 0) ?items =
         (Some (cc_card (?items ! i)), itemRate (?items ! i), cc_count (?items ! i))"
      "\<forall>j<length ?items. cc_count (?items ! j) \<ge> 5 \<longrightarrow>
         itemRate (?items ! j) \<le> itemRate (?items ! i)"
      "\<forall>j<i. cc_count (?items ! j) \<ge> 5 \<longrightarrow> itemRate (?items ! j) < itemRate (?items ! i)"
      by (simp only: if_True) blast
    from i(3) have "selectBestCard ?items =
         (Some (cc_card (?items ! i)), itemRate (?items ! i), cc_count (?items ! i))"
      by (simp add: selectBestCard_def)
    with sel(1-3) have "bestCard s = Some (cc_card (?items ! i))"
      "bestCardWinRate s = itemRate (?items ! i)" "bestCardCount s = cc_count (?items ! i)"
      by simp_all
    with i(1,2,4,5) show ?thesis by blast
  qed
  have part3: "\<exists>m. firstBest countLess ?items m \<and>
          mostUsedCard s = Some (cc_card (?items ! m)) \<and>
          mostUsedCardCount s = cc_count (?items ! m) \<and>
          ((\<forall>x \<in> set ?items. cc_count x < 5) \<longrightarrow>
             bestCard s = Some (cc_card (?items ! m)) \<and>
             bestCardWinRate s = itemRate (?items ! m) \<and>
             bestCardCount s = cc_count (?items ! m))"
    if ne: "cardCounts st \<noteq> []"
  proof -
    from ne have ine: "?items \<noteq> []" by (simp add: objectValues_empty)
    from mostUsed_first[OF ine ok] obtain m where m: "firstBest countLess ?items m"
      "selectMostUsedCard ?items = (Some (cc_card (?items ! m)), cc_count (?items ! m))"
      by blast
    with sel(4,5) have mu: "mostUsedCard s = Some (cc_card (?items ! m))"
      "mostUsedCardCount s = cc_count (?items ! m)" by simp_all
    have fb: "bestCard s = Some (cc_card (?items ! m)) \<and>
             bestCardWinRate s = itemRate (?items ! m) \<and>
             bestCardCount s = cc_count (?items ! m)"
      if small: "\<forall>x \<in> set ?items. cc_count x < 5"
    proof -
      from small have "\<not> (\<exists>x \<in> set ?items. cc_count x \<ge> 5)" by (simp add: not_le)
      with thr have init: "foldl bestCardStep (None, - 1, 0) ?items = (None, - 1, 0)"
        by (simp only: if_False)
      from fallback_first[OF ine ok, of "(None, - 1, 0)"] obtain i where
        i: "firstBest countLess ?items i"
        "snd (foldl fallbackStep (0, None, - 1, 0) ?items) =
           (Some (cc_card (?items ! i)), itemRate (?items ! i), cc_count (?items ! i))"
        by blast
      from i(1) m(1) have "i = m" by (rule firstBest_unique)
      with i(2) init have "selectBestCard ?items =
           (Some (cc_card (?items ! m)), itemRate (?items ! m), cc_count (?items ! m))"
        by (simp add: selectBestCard_def)
      with sel(1-3) show ?thesis by simp
    qed
    from m(1) mu fb show ?thesis by blast
  qed
  have part1: "bestCard s \<noteq> None" if ne: "cardCounts st \<noteq> []"
  proof (cases "\<exists>x \<in> set ?items. cc_count x \<ge> 5")
    case True
    from part2[OF True] show ?thesis by auto
  next
    case False
    then have "\<forall>x \<in> set ?items. cc_count x < 5" by (simp add: not_le)
    with part3[OF ne] show ?thesis by auto
  qed
  from part1 part2 part3 show ?thesis by blast
qed

theorem best_card_selection_witness:
  "\<exists>st s st' s'.
     countBattles codeUnitCompare ''#P'' fiveBattles = Inr st \<and>
     PlayerUsageStats codeUnitCompare fiveBattles ''#P'' [] = Inr (Some s) \<and>
     map fst (cardCounts st) = [''A'', ''C''] \<and>
     map (cc_count \<circ> snd) (cardCounts st) = [5, 4] \<and>
     map (cc_wins \<circ> snd) (cardCounts st) = [4, 4] \<and>
     map_option name (bestCard s) = Some ''A'' \<and>
     bestCardWinRate s = 4 / 5 \<and> bestCardCount s = 5 \<and>
     cardCounts st \<noteq> [] \<and> bestCard s \<noteq> None \<and>
     (\<exists>i<length (objectValues (cardCounts st)).
        cc_count (objectValues (cardCounts st) ! i) \<ge> 5 \<and>
        bestCard s = Some (cc_card (objectValues (cardCounts st) ! i)) \<and>
        bestCardWinRate s = itemRate (objectValues (cardCounts st) ! i)) \<and>
     countBattles codeUnitCompare ''#P'' sampleBattles = Inr st' \<and>
     PlayerUsageStats codeUnitCompare sampleBattles ''#P'' [] = Inr (Some s') \<and>
     map_option name (bestCard s') = Some ''A'' \<and>
     bestCardWinRate s' = 1 / 2 \<and> bestCardCount s' = 2 \<and>
     (\<exists>m. firstBest countLess (objectValues (cardCounts st')) m \<and>
        mostUsedCard s' = Some (cc_card (objectValues (cardCounts st') ! m)) \<and>
        bestCard s' = Some (cc_card (objectValues (cardCounts st') ! m)) \<and>
        bestCardWinRate s' = itemRate (objectValues (cardCounts st') ! m))"
proof -
  from five_eval[THEN case_sum_ex] obtain st where
    st: "countBattles codeUnitCompare ''#P'' fiveBattles = Inr st" and
    r: "(case PlayerUsageStats codeUnitCompare fiveBattles ''#P'' [] of
           Inr (Some s) \<Rightarrow>
             map fst (cardCounts st) = [''A'', ''C''] \<and>
             map (cc_count \<circ> snd) (cardCounts st) = [5, 4] \<and>
             map (cc_wins \<circ> snd) (cardCounts st) = [4, 4] \<and>
             list_ex (\<lambda>x. cc_count x \<ge> 5) (objectValues (cardCounts st)) \<and>
             map_option name (bestCard s) = Some ''A'' \<and>
             bestCardWinRate s = 4 / 5 \<and> bestCardCount s = 5 \<and>
             map_option name (mostUsedCard s) = Some ''A'' \<and> mostUsedCardCount s = 5
         | _ \<Rightarrow> False)"
    by (elim exE conjE)
  from r[THEN case_sum_option_ex] obtain s where
    s: "PlayerUsageStats codeUnitCompare fiveBattles ''#P'' [] = Inr (Some s)"
      "map fst (cardCounts st) = [''A'', ''C'']"
      "map (cc_count \<circ> snd) (cardCounts st) = [5, 4]"
      "map (cc_wins \<circ> snd) (cardCounts st) = [4, 4]"
      "list_ex (\<lambda>x. cc_count x \<ge> 5) (objectValues (cardCounts st))"
      "map_option name (bestCard s) = Some ''A''"
      "bestCardWinRate s = 4 / 5" "bestCardCount s = 5"
    by (elim exE conjE)
  from s(5) have ex: "\<exists>x \<in> set (objectValues (cardCounts st)). cc_count x \<ge> 5"
    by (simp only: list_ex_iff)
  from best_card_selection[OF st s(1)] ex
  have five: "\<exists>i<length (objectValues (cardCounts st)).
        cc_count (objectValues (cardCounts st) ! i) \<ge> 5 \<and>
        bestCard s = Some (cc_card (objectValues (cardCounts st) ! i)) \<and>
        bestCardWinRate s = itemRate (objectValues (cardCounts st) ! i)"
    by blast
  from s(2) have ne: "cardCounts st \<noteq> []" by auto
  from best_card_selection[OF st s(1), THEN conjunct1] ne
  have some: "bestCard s \<noteq> None" by (elim impE)
  from sample_fallback_eval[THEN case_sum_ex] obtain st' where
    st': "countBattles codeUnitCompare ''#P'' sampleBattles = Inr st'" and
    r': "(case PlayerUsageStats codeUnitCompare sampleBattles ''#P'' [] of
           Inr (Some s) \<Rightarrow>
             cardCounts st' \<noteq> [] \<and>
             list_all (\<lambda>x. cc_count x < 5) (objectValues (cardCounts st')) \<and>
             map_option name (bestCard s) = Some ''A'' \<and>
             bestCardWinRate s = 1 / 2 \<and> bestCardCount s = 2
         | _ \<Rightarrow> False)"
    by (elim exE conjE)
  from r'[THEN case_sum_option_ex] obtain s' where
    s': "PlayerUsageStats codeUnitCompare sampleBattles ''#P'' [] = Inr (Some s')"
      "cardCounts st' \<noteq> []"
      "list_all (\<lambda>x. cc_count x < 5) (objectValues (cardCounts st'))"
      "map_option name (bestCard s') = Some ''A''"
      "bestCardWinRate s' = 1 / 2" "bestCardCount s' = 2"
    by (elim exE conjE)
  from s'(3) have small: "\<forall>x \<in> set (objectValues (cardCounts st')). cc_count x < 5"
    by (simp only: list_all_iff)
  from best_card_selection[OF st' s'(1)] s'(2) small
  have two: "\<exists>m. firstBest countLess (objectValues (cardCounts st')) m \<and>
        mostUsedCard s' = Some (cc_card (objectValues (cardCounts st') ! m)) \<and>
        bestCard s' = Some (cc_card (objectValues (cardCounts st') ! m)) \<and>
        bestCardWinRate s' = itemRate (objectValues (cardCounts st') ! m)"
    by blast
  show ?thesis
    by (intro exI[of _ st] exI[of _ s] exI[of _ st'] exI[of _ s'] conjI
          st s(1-4) s(6-8) ne some five st' s'(1) s'(4-6) two)
qed

section \<open>Hardest counters\<close>

lemma insortBy_insort_key:
  assumes "\<And>a b. (cmp a b \<le> 0) = (key a \<le> key b)"
  shows "insortBy cmp x xs = insort_key key x xs"
  by (induction xs) (simp_all add: assms)

lemma sortBy_sort_key:
  assumes "\<And>a b. (cmp a b \<le> 0) = (key a \<le> key b)"
  shows "sortBy cmp xs = sort_key key xs"
  by (induction xs) (simp_all add: sortBy_def insortBy_insort_key[of cmp key, OF assms])

lemma strugglingCardsOf_alt:
  "strugglingCardsOf arr = take 6 (sort_key cardRate (filter struggling arr))"
proof -
  have "sortBy (\<lambda>a b. cardRate a - cardRate b) xs = sort_key cardRate xs" for xs
    by (rule sortBy_sort_key) simp
  moreover have "(\<lambda>s. cs_faced s \<ge> 3 \<and> cardRate s < 1 / 2) = struggling"
    by (rule ext) (simp add: struggling_def)
  ultimately show ?thesis by (simp add: strugglingCardsOf_def)
qed

lemma take_sorted_rest:
  assumes "sorted (map f xs)" "s \<in> set xs" "s \<notin> set (take n xs)"
  shows "length (take n xs) = n \<and> (\<forall>t \<in> set (take n xs). f t \<le> f s)"
proof -
  have "set xs = set (take n xs) \<union> set (drop n xs)"
    by (metis append_take_drop_id set_append)
  with assms(2,3) have d: "s \<in> set (drop n xs)" by blast
  then have "drop n xs \<noteq> []" by auto
  then have l: "length (take n xs) = n" by simp
  from assms(1) have "sorted (map f (take n xs) @ map f (drop n xs))"
    by (simp only: map_append[symmetric] append_take_drop_id)
  then have "\<forall>a \<in> set (map f (take n xs)). \<forall>b \<in> set (map f (drop n xs)). a \<le> b"
    by (simp only: sorted_append) blast
  with d have "\<forall>t \<in> set (take n xs). f t \<le> f s" by auto
  with l show ?thesis by blast
qed

lemma strugglingCardsOf_props:
  "length (strugglingCardsOf arr) \<le> 6"
  "sorted (map cardRate (strugglingCardsOf arr))"
  "\<forall>s \<in> set (strugglingCardsOf arr). s \<in> set arr \<and> struggling s"
  "\<forall>s \<in> set arr. struggling s \<and> s \<notin> set (strugglingCardsOf arr) \<longrightarrow>
     length (strugglingCardsOf arr) = 6 \<and>
     (\<forall>t \<in> set (strugglingCardsOf arr). cardRate t \<le> cardRate s)"
  "length (filter struggling arr) \<le> 6 \<longrightarrow>
     set (strugglingCardsOf arr) = {s \<in> set arr. struggling s}"
proof -
  let ?s = "sort_key cardRate (filter struggling arr)"
  show "length (strugglingCardsOf arr) \<le> 6" by (simp add: strugglingCardsOf_alt)
  have srt: "sorted (map cardRate ?s)" by (rule sorted_sort_key)
  then show "sorted (map cardRate (strugglingCardsOf arr))"
    unfolding strugglingCardsOf_alt take_map[symmetric] by (rule sorted_wrt_take)
  show "\<forall>s \<in> set (strugglingCardsOf arr). s \<in> set arr \<and> struggling s"
  proof
    fix s assume "s \<in> set (strugglingCardsOf arr)"
    then have "s \<in> set ?s" unfolding strugglingCardsOf_alt by (rule in_set_takeD)
    then show "s \<in> set arr \<and> struggling s" by simp
  qed
  show "\<forall>s \<in> set arr. struggling s \<and> s \<notin> set (strugglingCardsOf arr) \<longrightarrow>
     length (strugglingCardsOf arr) = 6 \<and>
     (\<forall>t \<in> set (strugglingCardsOf arr). cardRate t \<le> cardRate s)"
  proof (intro ballI impI)
    fix s assume "s \<in> set arr" and h: "struggling s \<and> s \<notin> set (strugglingCardsOf arr)"
    then have "s \<in> set ?s" by simp
    moreover from h have "s \<notin> set (take 6 ?s)" by (simp add: strugglingCardsOf_alt)
    ultimately show "length (strugglingCardsOf arr) = 6 \<and>
        (\<forall>t \<in> set (strugglingCardsOf arr). cardRate t \<le> cardRate s)"
      unfolding strugglingCardsOf_alt using srt by (intro take_sorted_rest)
  qed
  show "length (filter struggling arr) \<le> 6 \<longrightarrow>
     set (strugglingCardsOf arr) = {s \<in> set arr. struggling s}"
    by (simp add: strugglingCardsOf_alt)
qed

lemma PlayerMatchupStats_Some:
  assumes "PlayerMatchupStats battles playerTag = Inr (Some ms)"
      and "faceBattles playerTag battles = Inr st"
  shows "strugglingCards ms = strugglingCardsOf (objectValues (cardStats st))"
  using assms by (simp add: PlayerMatchupStats_def split: if_splits) auto

lemma struggling_three_one: "cs_faced s = 3 \<Longrightarrow> cs_wins s = 1 \<Longrightarrow> struggling s"
  by (simp add: struggling_def cardRate_def winRate_def)

lemma three_eval:
  "(case faceBattles ''#P'' threeBattles of
      Inr st \<Rightarrow>
        (case PlayerMatchupStats threeBattles ''#P'' of
           Inr (Some ms) \<Rightarrow>
             map (\<lambda>s. (name (cs_card s), cs_faced s, cs_wins s)) (objectValues (cardStats st)) =
               [(''X'', 3, 1), (''Y'', 2, 0)] \<and>
             map (\<lambda>s. name (cs_card s)) (strugglingCards ms) = [''X'']
         | _ \<Rightarrow> False)
    | _ \<Rightarrow> False)"
  by code_simp

lemma cap_eval:
  "(case faceBattles ''#P'' capBattles of
      Inr st \<Rightarrow>
        (case PlayerMatchupStats capBattles ''#P'' of
           Inr (Some ms) \<Rightarrow>
             list_ex (\<lambda>s. name (cs_card s) = ''X'' \<and> cs_faced s = 3 \<and> cs_wins s = 1 \<and>
                          cardRate s < 1 / 2 \<and>
                          \<not> list_ex (\<lambda>t. name (cs_card t) = name (cs_card s))
                              (strugglingCards ms))
               (objectValues (cardStats st))
         | _ \<Rightarrow> False)
    | _ \<Rightarrow> False)"
  by code_simp

text \<open>
  Claim C7, as stated, fails: the list is cut to 6 entries after sorting, so a card faced 3
  times with 1 win is left out when six qualifying cards have a lower win rate. Here six
  cards were faced 3 times without a win and the card X was faced 3 times with 1 win; the
  list holds the six, and not X.
\<close>

theorem hardest_counters_cap_counterexample:
  "facedAndWins capBattles ''#P'' ''X'' = Some (3, 1) \<and>
   hardestCounterNames capBattles ''#P'' = Some [''A'', ''B'', ''C'', ''D'', ''E'', ''F'']"
  by code_simp

text \<open>
  Claim C7, amended. The hardest counters are the first 6 of the qualifying cards (faced at
  least 3 times, win rate below one half) in ascending order of win rate: the list has at
  most 6 entries, is ascending by win rate, holds qualifying cards only, and a qualifying
  card is left out only when the list is full with cards of no higher win rate. When at most
  6 cards qualify the list holds exactly the qualifying cards, so a card faced 3 times with 1
  win is in it; a card faced fewer than 3 times is never in it.
\<close>

theorem hardest_counters_up_to_cap:
  assumes run: "faceBattles playerTag battles = Inr st"
      and res: "PlayerMatchupStats battles playerTag = Inr (Some ms)"
  shows "length (strugglingCards ms) \<le> 6 \<and>
     sorted (map cardRate (strugglingCards ms)) \<and>
     (\<forall>s \<in> set (strugglingCards ms).
        s \<in> set (objectValues (cardStats st)) \<and> 3 \<le> cs_faced s \<and> cardRate s < 1 / 2) \<and>
     (\<forall>s \<in> set (objectValues (cardStats st)).
        3 \<le> cs_faced s \<and> cardRate s < 1 / 2 \<and> s \<notin> set (strugglingCards ms) \<longrightarrow>
        length (strugglingCards ms) = 6 \<and>
        (\<forall>t \<in> set (strugglingCards ms). cardRate t \<le> cardRate s)) \<and>
     (length (filter struggling (objectValues (cardStats st))) \<le> 6 \<longrightarrow>
        set (strugglingCards ms) = {s \<in> set (objectValues (cardStats st)). struggling s} \<and>
        (\<forall>s \<in> set (objectValues (cardStats st)).
           cs_faced s = 3 \<and> cs_wins s = 1 \<longrightarrow> s \<in> set (strugglingCards ms))) \<and>
     (\<forall>s. cs_faced s < 3 \<longrightarrow> s \<notin> set (strugglingCards ms))"
proof -
  let ?arr = "objectValues (cardStats st)"
  have eq: "strugglingCards ms = strugglingCardsOf ?arr"
    using res run by (rule PlayerMatchupStats_Some)
  note p = strugglingCardsOf_props[of ?arr]
  have a: "length (strugglingCards ms) \<le> 6" and b: "sorted (map cardRate (strugglingCards ms))"
    unfolding eq by (rule p(1), rule p(2))
  have c: "\<forall>s \<in> set (strugglingCards ms).
        s \<in> set ?arr \<and> 3 \<le> cs_faced s \<and> cardRate s < 1 / 2"
    unfolding eq using p(3) by (simp add: struggling_def)
  have d: "\<forall>s \<in> set ?arr.
        3 \<le> cs_faced s \<and> cardRate s < 1 / 2 \<and> s \<notin> set (strugglingCards ms) \<longrightarrow>
        length (strugglingCards ms) = 6 \<and>
        (\<forall>t \<in> set (strugglingCards ms). cardRate t \<le> cardRate s)"
    unfolding eq using p(4) by (simp add: struggling_def)
  have e: "set (strugglingCards ms) = {s \<in> set ?arr. struggling s} \<and>
        (\<forall>s \<in> set ?arr. cs_faced s = 3 \<and> cs_wins s = 1 \<longrightarrow> s \<in> set (strugglingCards ms))"
    if "length (filter struggling ?arr) \<le> 6"
  proof -
    from p(5) that have s: "set (strugglingCards ms) = {s \<in> set ?arr. struggling s}"
      unfolding eq by blast
    then show ?thesis using struggling_three_one by blast
  qed
  have f: "\<forall>s. cs_faced s < 3 \<longrightarrow> s \<notin> set (strugglingCards ms)"
    using c by fastforce
  from a b c d e f show ?thesis by blast
qed

theorem hardest_counters_up_to_cap_witness:
  "\<exists>st ms st' ms' x. faceBattles ''#P'' threeBattles = Inr st \<and>
     PlayerMatchupStats threeBattles ''#P'' = Inr (Some ms) \<and>
     map (\<lambda>s. (name (cs_card s), cs_faced s, cs_wins s)) (objectValues (cardStats st)) =
       [(''X'', 3, 1), (''Y'', 2, 0)] \<and>
     map (\<lambda>s. name (cs_card s)) (strugglingCards ms) = [''X''] \<and>
     length (filter struggling (objectValues (cardStats st))) \<le> 6 \<and>
     length (strugglingCards ms) \<le> 6 \<and>
     sorted (map cardRate (strugglingCards ms)) \<and>
     set (strugglingCards ms) = {s \<in> set (objectValues (cardStats st)). struggling s} \<and>
     faceBattles ''#P'' capBattles = Inr st' \<and>
     PlayerMatchupStats capBattles ''#P'' = Inr (Some ms') \<and>
     x \<in> set (objectValues (cardStats st')) \<and> cs_faced x = 3 \<and> cs_wins x = 1 \<and>
     x \<notin> set (strugglingCards ms') \<and>
     length (strugglingCards ms') = 6 \<and>
     list_all (\<lambda>t. cardRate t \<le> cardRate x) (strugglingCards ms')"
proof -
  from three_eval[THEN case_sum_ex] obtain st where
    st: "faceBattles ''#P'' threeBattles = Inr st" and
    r: "(case PlayerMatchupStats threeBattles ''#P'' of
           Inr (Some ms) \<Rightarrow>
             map (\<lambda>s. (name (cs_card s), cs_faced s, cs_wins s)) (objectValues (cardStats st)) =
               [(''X'', 3, 1), (''Y'', 2, 0)] \<and>
             map (\<lambda>s. name (cs_card s)) (strugglingCards ms) = [''X'']
         | _ \<Rightarrow> False)"
    by (elim exE conjE)
  from r[THEN case_sum_option_ex] obtain ms where
    ms: "PlayerMatchupStats threeBattles ''#P'' = Inr (Some ms)"
      "map (\<lambda>s. (name (cs_card s), cs_faced s, cs_wins s)) (objectValues (cardStats st)) =
         [(''X'', 3, 1), (''Y'', 2, 0)]"
      "map (\<lambda>s. name (cs_card s)) (strugglingCards ms) = [''X'']"
    by (elim exE conjE)
  from ms(2) have "length (map (\<lambda>s. (name (cs_card s), cs_faced s, cs_wins s))
                     (objectValues (cardStats st))) = 2"
    by simp
  then have "length (objectValues (cardStats st)) = 2" by (simp only: length_map)
  moreover have "length (filter struggling (objectValues (cardStats st)))
                   \<le> length (objectValues (cardStats st))"
    by (rule length_filter_le)
  ultimately have few: "length (filter struggling (objectValues (cardStats st))) \<le> 6" by simp
  note h = hardest_counters_up_to_cap[OF st ms(1)]
  from h have a: "length (strugglingCards ms) \<le> 6" by (rule conjunct1)
  from h have b: "sorted (map cardRate (strugglingCards ms))"
    by (rule conjunct2[THEN conjunct1])
  from h[THEN conjunct2, THEN conjunct2, THEN conjunct2, THEN conjunct2, THEN conjunct1] few
  have c: "set (strugglingCards ms) = {s \<in> set (objectValues (cardStats st)). struggling s}"
    by (elim impE conjE)
  from cap_eval[THEN case_sum_ex] obtain st' where
    st': "faceBattles ''#P'' capBattles = Inr st'" and
    r': "(case PlayerMatchupStats capBattles ''#P'' of
           Inr (Some ms) \<Rightarrow>
             list_ex (\<lambda>s. name (cs_card s) = ''X'' \<and> cs_faced s = 3 \<and> cs_wins s = 1 \<and>
                          cardRate s < 1 / 2 \<and>
                          \<not> list_ex (\<lambda>t. name (cs_card t) = name (cs_card s))
                              (strugglingCards ms))
               (objectValues (cardStats st'))
         | _ \<Rightarrow> False)"
    by (elim exE conjE)
  from r'[THEN case_sum_option_ex] obtain ms' where
    ms': "PlayerMatchupStats capBattles ''#P'' = Inr (Some ms')"
      "list_ex (\<lambda>s. name (cs_card s) = ''X'' \<and> cs_faced s = 3 \<and> cs_wins s = 1 \<and>
                          cardRate s < 1 / 2 \<and>
                          \<not> list_ex (\<lambda>t. name (cs_card t) = name (cs_card s))
                              (strugglingCards ms'))
               (objectValues (cardStats st'))"
    by (elim exE conjE)
  from ms'(2) obtain x where
    x: "x \<in> set (objectValues (cardStats st'))" "cs_faced x = 3" "cs_wins x = 1"
       "cardRate x < 1 / 2"
       "\<not> list_ex (\<lambda>t. name (cs_card t) = name (cs_card x)) (strugglingCards ms')"
    unfolding list_ex_iff[of _ "objectValues (cardStats st')"] by (elim bexE conjE)
  from x(5) have xn: "x \<notin> set (strugglingCards ms')"
    unfolding list_ex_iff by blast
  from x(2) have x3: "3 \<le> cs_faced x" by simp
  note h' = hardest_counters_up_to_cap[OF st' ms'(1)]
  from h'[THEN conjunct2, THEN conjunct2, THEN conjunct2, THEN conjunct1, THEN bspec, OF x(1)]
    x3 x(4) xn
  have full: "length (strugglingCards ms') = 6 \<and>
        (\<forall>t \<in> set (strugglingCards ms'). cardRate t \<le> cardRate x)"
    by (elim impE) (intro conjI)
  then have f1: "length (strugglingCards ms') = 6" by (rule conjunct1)
  from full have f2: "list_all (\<lambda>t. cardRate t \<le> cardRate x) (strugglingCards ms')"
    unfolding list_all_iff by (rule conjunct2)
  from st ms few a b c st' ms'(1) x(1-3) xn f1 f2 show ?thesis
    by (intro exI[of _ st] exI[of _ ms] exI[of _ st'] exI[of _ ms'] exI[of _ x] conjI)
qed

section \<open>Tower troops\<close>

lemma towerCountOf_bumpTower:
  "towerCountOf (bumpTower tcs c) n = towerCountOf tcs n + (if name c = n then 1 else 0)"
  by (simp add: towerCountOf_def bumpTower_def Let_def objGet_objSet split: option.splits)

lemma towerCountOf_foldl:
  "towerCountOf (foldl bumpTower tcs sc) n =
     towerCountOf tcs n + int (count_list (map name sc) n)"
  by (induction sc arbitrary: tcs) (simp_all add: towerCountOf_bumpTower)

lemma towerBattle_eq:
  "towerBattle playerTag acc battle =
     (foldl bumpTower (fst acc) (supportCardsOf playerTag battle),
      snd acc + (if reportsTower playerTag battle then 1 else 0))"
  by (cases acc)
     (simp add: towerBattle_def reportsTower_def supportCardsOf_def split: option.splits)

lemma towerBattles_total:
  "snd (foldl (towerBattle playerTag) acc battles) =
     snd acc + int (length (filter (reportsTower playerTag) battles))"
  by (induction battles arbitrary: acc) (simp_all add: towerBattle_eq)

lemma towerBattles_counts:
  "towerCountOf (fst (foldl (towerBattle playerTag) acc battles)) n =
     towerCountOf (fst acc) n +
     int (count_list (map name (concat (map (supportCardsOf playerTag) battles))) n)"
  by (induction battles arbitrary: acc)
     (simp_all add: towerBattle_eq towerCountOf_foldl)

lemma bumpTower_inv:
  assumes "\<forall>p \<in> set tcs. 1 \<le> tc_count (snd p)"
  shows "\<forall>p \<in> set (bumpTower tcs c). 1 \<le> tc_count (snd p)"
proof -
  define f where "f = (\<lambda>e::TowerCount. e\<lparr>tc_count := tc_count e + 1\<rparr>)"
  define d where "d = \<lparr>tc_count = 0, tc_card = c\<rparr>"
  have eq: "bumpTower tcs c =
            objSet tcs (name c) (f (case objGet tcs (name c) of None \<Rightarrow> d | Some e \<Rightarrow> e))"
    unfolding bumpTower_def Let_def f_def d_def by (rule refl)
  have n: "1 \<le> tc_count (f d)" by (simp add: f_def d_def)
  have o: "1 \<le> tc_count e \<Longrightarrow> 1 \<le> tc_count (f e)" for e by (simp add: f_def)
  show ?thesis
    unfolding eq
    by (rule obj_bump_inv[of tcs "\<lambda>e. 1 \<le> tc_count e" f d "name c"]) (use assms n o in blast)+
qed

lemma towerBattle_inv:
  assumes "\<forall>p \<in> set (fst acc). 1 \<le> tc_count (snd p)"
  shows "\<forall>p \<in> set (fst (towerBattle playerTag acc battle)). 1 \<le> tc_count (snd p)"
  unfolding towerBattle_eq fst_conv
  using assms by (rule foldl_inv) (rule bumpTower_inv)

lemma towerCountsOf_inv: "\<forall>p \<in> set (towerCountsOf playerTag battles). 1 \<le> tc_count (snd p)"
  unfolding towerCountsOf_def
  by (rule foldl_inv[where P = "\<lambda>acc. \<forall>p \<in> set (fst acc). 1 \<le> tc_count (snd p)"])
     (simp, rule towerBattle_inv)

lemma towerStep_eq:
  "towerStep acc item =
     (if True \<and> snd acc < tc_count item then (Some (tc_card item), tc_count item) else acc)"
  by (simp add: towerStep_def)

lemma mostUsedTower_first:
  assumes ne: "tcs \<noteq> []" and ok: "\<forall>p \<in> set tcs. 1 \<le> tc_count (snd p)"
  shows "\<exists>i. firstBest towerLess (objectValues tcs) i \<and>
             foldl towerStep (None, 0) (objectValues tcs) =
               (Some (tc_card (objectValues tcs ! i)), tc_count (objectValues tcs ! i))"
proof -
  let ?xs = "objectValues tcs"
  have low: "\<forall>x \<in> set ?xs. True \<longrightarrow> snd (None :: Card option, 0 :: int) < tc_count x"
    using ok by (fastforce simp: set_objectValues)
  have ex: "\<exists>x \<in> set ?xs. True"
    using ne objectValues_empty[of tcs] by (cases "objectValues tcs") auto
  from foldl_first_max[where step = towerStep and q = "\<lambda>_. True" and key = tc_count
      and getk = snd and upd = "\<lambda>x. (Some (tc_card x), tc_count x)"
      and init = "(None, 0)" and xs = ?xs, OF towerStep_eq _ low] ex
  obtain i where i: "i < length ?xs"
    "foldl towerStep (None, 0) ?xs = (Some (tc_card (?xs ! i)), tc_count (?xs ! i))"
    "\<forall>j<length ?xs. True \<longrightarrow> tc_count (?xs ! j) \<le> tc_count (?xs ! i)"
    "\<forall>j<i. True \<longrightarrow> tc_count (?xs ! j) < tc_count (?xs ! i)"
    by auto
  from i(1,3,4) have "firstBest towerLess ?xs i"
    by (simp add: firstBest_def towerLess_def not_less)
  with i(2) show ?thesis by blast
qed

lemma PlayerUsageStats_run:
  assumes "PlayerUsageStats lc battles playerTag cardData = Inr (Some s)"
  shows "\<exists>st. countBattles lc playerTag battles = Inr st"
proof (cases "countBattles lc playerTag battles")
  case (Inl e)
  with assms show ?thesis by (simp add: PlayerUsageStats_def split: if_splits)
next
  case (Inr st)
  then show ?thesis by blast
qed

lemma PlayerUsageStats_null:
  "validBattles battles = [] \<Longrightarrow> PlayerUsageStats lc battles playerTag cardData = Inr None"
  by (simp add: PlayerUsageStats_def)

lemma PlayerUsageStats_valid:
  "PlayerUsageStats lc battles playerTag cardData = Inr (Some s) \<Longrightarrow> validBattles battles \<noteq> []"
  by (simp add: PlayerUsageStats_def split: if_splits)

lemma PlayerUsageStats_produced:
  assumes "validBattles battles \<noteq> []" "countBattles lc playerTag battles = Inr st"
  shows "\<exists>s. PlayerUsageStats lc battles playerTag cardData = Inr (Some s)"
proof -
  from assms(1) have "battles \<noteq> []" by (auto simp: validBattles_def)
  with assms show ?thesis by (simp add: PlayerUsageStats_def Let_def)
qed

lemma friendly_eval:
  "(case PlayerUsageStats codeUnitCompare (friendlyTowerBattle # sampleBattles) ''#P'' [] of
      Inr (Some s) \<Rightarrow>
        totalTowerBattles s = 1 \<and> map_option name (mostUsedTower s) = Some ''Tower Princess'' \<and>
        mostUsedTowerCount s = 1 \<and> totalBattles s = 3
    | _ \<Rightarrow> False)"
  by code_simp

lemma friendly_filter:
  "filter (reportsTower ''#P'') (friendlyTowerBattle # sampleBattles) = [friendlyTowerBattle] \<and>
   validBattles (friendlyTowerBattle # sampleBattles) = sampleBattles"
  by code_simp

lemma friendly_tower_eval:
  "towerCountsOf ''#P'' (friendlyTowerBattle # sampleBattles) \<noteq> [] \<and>
   towerUses ''#P'' (friendlyTowerBattle # sampleBattles) ''Tower Princess'' = 1"
  by code_simp

lemma friendly_only:
  "validBattles [friendlyTowerBattle] = [] \<and>
   filter (reportsTower ''#P'') [friendlyTowerBattle] = [friendlyTowerBattle]"
  by code_simp

lemma friendly_run_eval:
  "(case countBattles codeUnitCompare ''#P'' (friendlyTowerBattle # sampleBattles) of
      Inr st \<Rightarrow> deckCounts st \<noteq> []
    | _ \<Rightarrow> False)"
  by code_simp

text \<open>
  Claim C10, as stated, fails: the statistics are \<^verbatim>\<open>null\<close> when no battle passes the
  ladder / path-of-legend filter, so for a list holding only a friendly battle whose self
  side has a support card no tower figure is reported at all.
\<close>

theorem tower_stats_gated_counterexample:
  "PlayerUsageStats codeUnitCompare [friendlyTowerBattle] ''#P'' [] = Inr None \<and>
   filter (reportsTower ''#P'') [friendlyTowerBattle] = [friendlyTowerBattle]"
  by code_simp

text \<open>
  Claim C10, amended. When no battle passes the ladder / path-of-legend filter the result is
  \<^verbatim>\<open>null\<close>; the statistics are produced exactly when some battle passes the filter and the
  card and deck pass completes. Whenever they are produced, \<open>totalTowerBattles\<close> is the
  number of battles of the whole, unfiltered list whose resolved self side has a non-empty
  support-card list; the count of every tower name is its number of occurrences in those
  lists over the whole list; and the most used tower is the first bucket of highest count
  (none when no battle reports a support card).
\<close>

theorem tower_stats_over_all_battles:
  "(validBattles battles = [] \<longrightarrow> PlayerUsageStats lc battles playerTag cardData = Inr None) \<and>
   ((\<exists>s'. PlayerUsageStats lc battles playerTag cardData = Inr (Some s')) \<longleftrightarrow>
      validBattles battles \<noteq> [] \<and> (\<exists>st. countBattles lc playerTag battles = Inr st)) \<and>
   (PlayerUsageStats lc battles playerTag cardData = Inr (Some s) \<longrightarrow>
     totalTowerBattles s = int (length (filter (reportsTower playerTag) battles)) \<and>
     (\<forall>n. towerCountOf (towerCountsOf playerTag battles) n = towerUses playerTag battles n) \<and>
     (towerCountsOf playerTag battles = [] \<longrightarrow>
        mostUsedTower s = None \<and> mostUsedTowerCount s = 0) \<and>
     (towerCountsOf playerTag battles \<noteq> [] \<longrightarrow>
        (\<exists>i. firstBest towerLess (objectValues (towerCountsOf playerTag battles)) i \<and>
           mostUsedTower s = Some (tc_card (objectValues (towerCountsOf playerTag battles) ! i)) \<and>
           mostUsedTowerCount s = tc_count (objectValues (towerCountsOf playerTag battles) ! i))))"
proof (intro conjI impI)
  assume "validBattles battles = []"
  then show "PlayerUsageStats lc battles playerTag cardData = Inr None"
    by (rule PlayerUsageStats_null)
next
  show "(\<exists>s'. PlayerUsageStats lc battles playerTag cardData = Inr (Some s')) \<longleftrightarrow>
      validBattles battles \<noteq> [] \<and> (\<exists>st. countBattles lc playerTag battles = Inr st)"
    using PlayerUsageStats_valid PlayerUsageStats_run PlayerUsageStats_produced by blast
next
  assume res: "PlayerUsageStats lc battles playerTag cardData = Inr (Some s)"
  from PlayerUsageStats_run[OF res] obtain st where
    run: "countBattles lc playerTag battles = Inr st" by blast
  note sel = PlayerUsageStats_Some(9-11)[OF res run]
  show "totalTowerBattles s = int (length (filter (reportsTower playerTag) battles))"
    using sel(1) by (simp add: towerBattles_total)
  have "towerCountOf [] n = 0" for n by (simp add: towerCountOf_def objGet_def)
  then show "\<forall>n. towerCountOf (towerCountsOf playerTag battles) n =
                    towerUses playerTag battles n"
    by (simp add: towerCountsOf_def towerBattles_counts towerUses_def)
  show "mostUsedTower s = None" "mostUsedTowerCount s = 0"
    if "towerCountsOf playerTag battles = []"
    using sel(2,3) that objectValues_empty[of "towerCountsOf playerTag battles"]
    by (simp_all add: towerCountsOf_def)
  show "\<exists>i. firstBest towerLess (objectValues (towerCountsOf playerTag battles)) i \<and>
           mostUsedTower s = Some (tc_card (objectValues (towerCountsOf playerTag battles) ! i)) \<and>
           mostUsedTowerCount s = tc_count (objectValues (towerCountsOf playerTag battles) ! i)"
    if ne: "towerCountsOf playerTag battles \<noteq> []"
  proof -
    from mostUsedTower_first[OF ne towerCountsOf_inv] obtain i where
      i: "firstBest towerLess (objectValues (towerCountsOf playerTag battles)) i"
      "foldl towerStep (None, 0) (objectValues (towerCountsOf playerTag battles)) =
         (Some (tc_card (objectValues (towerCountsOf playerTag battles) ! i)),
          tc_count (objectValues (towerCountsOf playerTag battles) ! i))"
      by blast
    from sel(2,3) i(2) have
      "mostUsedTower s = Some (tc_card (objectValues (towerCountsOf playerTag battles) ! i))"
      "mostUsedTowerCount s = tc_count (objectValues (towerCountsOf playerTag battles) ! i)"
      by (simp_all add: towerCountsOf_def)
    with i(1) show ?thesis by blast
  qed
qed

theorem tower_stats_over_all_battles_witness:
  "(validBattles [friendlyTowerBattle] = [] \<and>
    filter (reportsTower ''#P'') [friendlyTowerBattle] = [friendlyTowerBattle] \<and>
    PlayerUsageStats codeUnitCompare [friendlyTowerBattle] ''#P'' [] = Inr None) \<and>
   (\<exists>s i. PlayerUsageStats codeUnitCompare (friendlyTowerBattle # sampleBattles) ''#P'' [] =
          Inr (Some s) \<and>
       validBattles (friendlyTowerBattle # sampleBattles) = sampleBattles \<and>
       validBattles (friendlyTowerBattle # sampleBattles) \<noteq> [] \<and>
       (\<exists>st. countBattles codeUnitCompare ''#P'' (friendlyTowerBattle # sampleBattles) = Inr st) \<and>
       filter (reportsTower ''#P'') (friendlyTowerBattle # sampleBattles) = [friendlyTowerBattle] \<and>
       totalTowerBattles s = 1 \<and>
       map_option name (mostUsedTower s) = Some ''Tower Princess'' \<and>
       totalTowerBattles s =
         int (length (filter (reportsTower ''#P'') (friendlyTowerBattle # sampleBattles))) \<and>
       towerCountOf (towerCountsOf ''#P'' (friendlyTowerBattle # sampleBattles)) ''Tower Princess''
         = 1 \<and>
       towerCountsOf ''#P'' (friendlyTowerBattle # sampleBattles) \<noteq> [] \<and>
       firstBest towerLess
         (objectValues (towerCountsOf ''#P'' (friendlyTowerBattle # sampleBattles))) i \<and>
       mostUsedTower s =
         Some (tc_card
                (objectValues (towerCountsOf ''#P'' (friendlyTowerBattle # sampleBattles)) ! i)))"
proof -
  let ?bs = "friendlyTowerBattle # sampleBattles"
  from friendly_only have v0: "validBattles [friendlyTowerBattle] = []"
    and r0: "filter (reportsTower ''#P'') [friendlyTowerBattle] = [friendlyTowerBattle]"
    by (rule conjunct1, rule conjunct2)
  from tower_stats_over_all_battles[of "[friendlyTowerBattle]" codeUnitCompare "''#P''" "[]",
      THEN conjunct1] v0
  have n0: "PlayerUsageStats codeUnitCompare [friendlyTowerBattle] ''#P'' [] = Inr None"
    by (elim impE)
  from friendly_run_eval[THEN case_sum_ex] obtain st where
    st: "countBattles codeUnitCompare ''#P'' ?bs = Inr st" by (elim exE conjE)
  then have ex_st: "\<exists>st. countBattles codeUnitCompare ''#P'' ?bs = Inr st" by (rule exI)
  from friendly_filter have f1: "filter (reportsTower ''#P'') ?bs = [friendlyTowerBattle]"
    by (rule conjunct1)
  from friendly_filter have f2: "validBattles ?bs = sampleBattles"
    by (rule conjunct2)
  have f3: "validBattles ?bs \<noteq> []" unfolding f2 by (simp add: sampleBattles_def)
  from tower_stats_over_all_battles[of ?bs codeUnitCompare "''#P''" "[]",
      THEN conjunct2, THEN conjunct1, THEN iffD2, OF conjI, OF f3 ex_st]
  obtain s where s: "PlayerUsageStats codeUnitCompare ?bs ''#P'' [] = Inr (Some s)"
    by (elim exE)
  from friendly_eval[THEN case_sum_option_ex] s have
    e: "totalTowerBattles s = 1" "map_option name (mostUsedTower s) = Some ''Tower Princess''"
    by auto
  from tower_stats_over_all_battles[of ?bs codeUnitCompare "''#P''" "[]" s,
      THEN conjunct2, THEN conjunct2] s
  have h: "totalTowerBattles s = int (length (filter (reportsTower ''#P'') ?bs)) \<and>
     (\<forall>n. towerCountOf (towerCountsOf ''#P'' ?bs) n = towerUses ''#P'' ?bs n) \<and>
     (towerCountsOf ''#P'' ?bs = [] \<longrightarrow>
        mostUsedTower s = None \<and> mostUsedTowerCount s = 0) \<and>
     (towerCountsOf ''#P'' ?bs \<noteq> [] \<longrightarrow>
        (\<exists>i. firstBest towerLess (objectValues (towerCountsOf ''#P'' ?bs)) i \<and>
           mostUsedTower s = Some (tc_card (objectValues (towerCountsOf ''#P'' ?bs) ! i)) \<and>
           mostUsedTowerCount s = tc_count (objectValues (towerCountsOf ''#P'' ?bs) ! i)))"
    by (elim impE)
  from h have t: "totalTowerBattles s = int (length (filter (reportsTower ''#P'') ?bs))"
    by (rule conjunct1)
  from friendly_tower_eval have ne: "towerCountsOf ''#P'' ?bs \<noteq> []"
    and u: "towerUses ''#P'' ?bs ''Tower Princess'' = 1"
    by (rule conjunct1, rule conjunct2)
  from h[THEN conjunct2, THEN conjunct1, THEN spec, of "''Tower Princess''"] u
  have c: "towerCountOf (towerCountsOf ''#P'' ?bs) ''Tower Princess'' = 1" by simp
  from h[THEN conjunct2, THEN conjunct2, THEN conjunct2] ne
  have "\<exists>i. firstBest towerLess (objectValues (towerCountsOf ''#P'' ?bs)) i \<and>
           mostUsedTower s = Some (tc_card (objectValues (towerCountsOf ''#P'' ?bs) ! i)) \<and>
           mostUsedTowerCount s = tc_count (objectValues (towerCountsOf ''#P'' ?bs) ! i)"
    by (elim impE)
  then obtain i where
    i: "firstBest towerLess (objectValues (towerCountsOf ''#P'' ?bs)) i"
       "mostUsedTower s = Some (tc_card (objectValues (towerCountsOf ''#P'' ?bs) ! i))"
    by (elim exE conjE)
  have second: "\<exists>s i. PlayerUsageStats codeUnitCompare ?bs ''#P'' [] = Inr (Some s) \<and>
       validBattles ?bs = sampleBattles \<and>
       validBattles ?bs \<noteq> [] \<and>
       (\<exists>st. countBattles codeUnitCompare ''#P'' ?bs = Inr st) \<and>
       filter (reportsTower ''#P'') ?bs = [friendlyTowerBattle] \<and>
       totalTowerBattles s = 1 \<and>
       map_option name (mostUsedTower s) = Some ''Tower Princess'' \<and>
       totalTowerBattles s = int (length (filter (reportsTower ''#P'') ?bs)) \<and>
       towerCountOf (towerCountsOf ''#P'' ?bs) ''Tower Princess'' = 1 \<and>
       towerCountsOf ''#P'' ?bs \<noteq> [] \<and>
       firstBest towerLess (objectValues (towerCountsOf ''#P'' ?bs)) i \<and>
       mostUsedTower s = Some (tc_card (objectValues (towerCountsOf ''#P'' ?bs) ! i))"
    using s f2 f3 ex_st f1 e t c ne i by (intro exI[of _ s] exI[of _ i] conjI)
  from v0 r0 n0 second show ?thesis by (intro conjI)
qed

section \<open>Rates\<close>

text \<open>
  Claim C8. In every bucket of every table (cards, decks and variants of the usage tables;
  cards, decks, archetypes and the two trophy-gap buckets of the matchup tables) the wins
  never exceed the count, and the rate over a nonzero count lies between 0 and 1.
\<close>

theorem wins_never_exceed_count:
  "(countBattles lc playerTag battles = Inr st \<longrightarrow>
      (\<forall>p \<in> set (cardCounts st). rateInUnit (cc_wins (snd p)) (cc_count (snd p))) \<and>
      (\<forall>p \<in> set (deckCounts st).
         rateInUnit (dc_wins (snd p)) (dc_count (snd p)) \<and>
         (\<forall>q \<in> set (dc_variants (snd p)). rateInUnit (vc_wins (snd q)) (vc_count (snd q))))) \<and>
   (faceBattles playerTag battles = Inr mt \<longrightarrow>
      (\<forall>p \<in> set (cardStats mt). rateInUnit (cs_wins (snd p)) (cs_faced (snd p))) \<and>
      (\<forall>p \<in> set (deckStats mt). rateInUnit (ds_wins (snd p)) (ds_faced (snd p))) \<and>
      (\<forall>p \<in> set (archetypeStats mt). rateInUnit (as_wins (snd p)) (as_faced (snd p))) \<and>
      rateInUnit (higherTrophiesWins mt) (higherTrophiesFaced mt) \<and>
      rateInUnit (lowerTrophiesWins mt) (lowerTrophiesFaced mt))"
proof (intro conjI impI)
  assume "countBattles lc playerTag battles = Inr st"
  then have u: "usageInv st" by (rule countBattles_inv)
  then show "\<forall>p \<in> set (cardCounts st). rateInUnit (cc_wins (snd p)) (cc_count (snd p))"
    by (simp add: usageInv_def bucketOk_rate)
  from u show "\<forall>p \<in> set (deckCounts st).
         rateInUnit (dc_wins (snd p)) (dc_count (snd p)) \<and>
         (\<forall>q \<in> set (dc_variants (snd p)). rateInUnit (vc_wins (snd q)) (vc_count (snd q)))"
    by (simp add: usageInv_def bucketOk_rate)
next
  assume "faceBattles playerTag battles = Inr mt"
  then have m: "matchupInv mt" by (rule faceBattles_inv)
  then show "\<forall>p \<in> set (cardStats mt). rateInUnit (cs_wins (snd p)) (cs_faced (snd p))"
    "\<forall>p \<in> set (deckStats mt). rateInUnit (ds_wins (snd p)) (ds_faced (snd p))"
    "\<forall>p \<in> set (archetypeStats mt). rateInUnit (as_wins (snd p)) (as_faced (snd p))"
    by (simp_all add: matchupInv_def bucketOk_rate)
  from m show "rateInUnit (higherTrophiesWins mt) (higherTrophiesFaced mt)"
    "rateInUnit (lowerTrophiesWins mt) (lowerTrophiesFaced mt)"
    by (simp_all add: matchupInv_def bounds_rate)
qed

theorem wins_never_exceed_count_witness:
  "\<exists>st mt. countBattles codeUnitCompare ''#P'' sampleBattles = Inr st \<and>
     faceBattles ''#P'' sampleBattles = Inr mt \<and>
     map (cc_count \<circ> snd) (cardCounts st) = [2, 2, 2, 2, 2, 2, 2, 2] \<and>
     map (cc_wins \<circ> snd) (cardCounts st) = [1, 1, 1, 1, 1, 1, 1, 1] \<and>
     map (cs_faced \<circ> snd) (cardStats mt) = [2, 1, 1] \<and>
     map (cs_wins \<circ> snd) (cardStats mt) = [1, 1, 0] \<and>
     list_all (\<lambda>p. rateInUnit (cc_wins (snd p)) (cc_count (snd p))) (cardCounts st) \<and>
     list_all (\<lambda>p. rateInUnit (dc_wins (snd p)) (dc_count (snd p))) (deckCounts st) \<and>
     list_all (\<lambda>p. rateInUnit (cs_wins (snd p)) (cs_faced (snd p))) (cardStats mt) \<and>
     list_all (\<lambda>p. rateInUnit (ds_wins (snd p)) (ds_faced (snd p))) (deckStats mt) \<and>
     list_all (\<lambda>p. rateInUnit (as_wins (snd p)) (as_faced (snd p))) (archetypeStats mt) \<and>
     rateInUnit (higherTrophiesWins mt) (higherTrophiesFaced mt) \<and>
     rateInUnit (lowerTrophiesWins mt) (lowerTrophiesFaced mt)"
proof -
  from sample_usage_tables_eval[THEN case_sum_ex] obtain st where
    st: "countBattles codeUnitCompare ''#P'' sampleBattles = Inr st"
      "map (cc_count \<circ> snd) (cardCounts st) = [2, 2, 2, 2, 2, 2, 2, 2]"
      "map (cc_wins \<circ> snd) (cardCounts st) = [1, 1, 1, 1, 1, 1, 1, 1]"
    by (elim exE conjE)
  from sample_matchup_tables_eval[THEN case_sum_ex] obtain mt where
    mt: "faceBattles ''#P'' sampleBattles = Inr mt"
      "map (cs_faced \<circ> snd) (cardStats mt) = [2, 1, 1]"
      "map (cs_wins \<circ> snd) (cardStats mt) = [1, 1, 0]"
    by (elim exE conjE)
  from wins_never_exceed_count[of codeUnitCompare "''#P''" sampleBattles st mt] st(1) mt(1)
  have "list_all (\<lambda>p. rateInUnit (cc_wins (snd p)) (cc_count (snd p))) (cardCounts st)"
     "list_all (\<lambda>p. rateInUnit (dc_wins (snd p)) (dc_count (snd p))) (deckCounts st)"
     "list_all (\<lambda>p. rateInUnit (cs_wins (snd p)) (cs_faced (snd p))) (cardStats mt)"
     "list_all (\<lambda>p. rateInUnit (ds_wins (snd p)) (ds_faced (snd p))) (deckStats mt)"
     "list_all (\<lambda>p. rateInUnit (as_wins (snd p)) (as_faced (snd p))) (archetypeStats mt)"
     "rateInUnit (higherTrophiesWins mt) (higherTrophiesFaced mt)"
     "rateInUnit (lowerTrophiesWins mt) (lowerTrophiesFaced mt)"
    by (simp_all add: list_all_iff)
  with st mt show ?thesis by (intro exI[of _ st] exI[of _ mt] conjI)
qed

section \<open>Matchup significance\<close>

text \<open>
  Claim C9. With \<open>z = (p - 0.5) / sqrt(0.25 / n)\<close>, a win rate of exactly one half has
  \<open>z = 0\<close> and is not significant, for every sample size.
\<close>

theorem zScore_half: "zScore (1 / 2) n = 0 \<and> \<not> significant (1 / 2) n"
  by (simp add: zScore_def significant_def Z_THRESHOLD_def)

end
